theory Spec2Isabelle
  imports Main
begin

section \<open>Strings\<close>

text \<open>
  A JavaScript string is a sequence of UTF-16 code units. The model covers the strings
  whose code units are all below 256 (ASCII and the Latin-1 supplement), one \<open>char\<close> per
  code unit. On that range the white space that \<open>trim()\<close> removes and that the regular
  expression class \<open>\s\<close> matches is TAB, LF, VT, FF, CR, SPACE and NO-BREAK SPACE, and
  \<open>toLowerCase()\<close> moves \<open>A\<close>..\<open>Z\<close> and the accented capitals \<open>0xC0\<close>..\<open>0xDE\<close> (the
  multiplication sign \<open>0xD7\<close> apart) up by 32. A \<open>Buffer\<close> is a list of bytes, again
  one \<open>char\<close> each.
\<close>

type_synonym buffer = string

definition is_space :: "char \<Rightarrow> bool" where
  "is_space c =
     (c = CHR 0x09 \<or> c = CHR 0x0A \<or> c = CHR 0x0B \<or> c = CHR 0x0C \<or> c = CHR 0x0D
      \<or> c = CHR 0x20 \<or> c = CHR 0xA0)"

definition trim :: "string \<Rightarrow> string" where
  "trim s = rev (dropWhile is_space (rev (dropWhile is_space s)))"

definition lower_char :: "char \<Rightarrow> char" where
  "lower_char c =
     (let n = (of_char c :: nat)
      in if (65 \<le> n \<and> n \<le> 90) \<or> (192 \<le> n \<and> n \<le> 214) \<or> (216 \<le> n \<and> n \<le> 222)
         then char_of (n + 32) else c)"

definition toLowerCase :: "string \<Rightarrow> string" where
  "toLowerCase s = map lower_char s"

text \<open>\<open>String(n)\<close> for a non-negative integer: its decimal digits.\<close>

definition digit_char :: "nat \<Rightarrow> char" where
  "digit_char d = ''0123456789'' ! d"

fun decimal :: "nat \<Rightarrow> string" where
  "decimal n = (if n < 10 then [digit_char n] else decimal (n div 10) @ [digit_char (n mod 10)])"

declare decimal.simps [simp del]

text \<open>
  A \<open>Set\<close> of strings iterates in insertion order; \<open>add\<close> of a member changes nothing.
  The same holds for the keys of a \<open>Map\<close>.
\<close>

definition set_add :: "'a list \<Rightarrow> 'a \<Rightarrow> 'a list" where
  "set_add s x = (if x \<in> set s then s else s @ [x])"

section \<open>Row resolution\<close>

text \<open>
  A cell of a dataset row is a string, some other value (a number, a boolean, a date),
  or \<open>null\<close>/\<open>undefined\<close>. Of a non-string value the code only uses its truthiness and
  its rendering by \<open>String(...)\<close>, which are what \<open>CellOther\<close> carries. A row is a
  JavaScript object; the model lists its own properties in the order of \<open>Object.keys\<close>.
  A mapping entry comes from the JSON text of the request. Of its \<open>column\<close>, \<open>prefix\<close>
  and \<open>group\<close> the code first tests the truthiness, so an absent one is the empty
  string; its \<open>placeholder\<close> is also compared with \<open>===\<close>, so an absent one is \<open>None\<close>.
\<close>

datatype cell = CellText string | CellOther bool string | CellNull

type_synonym row = "(string \<times> cell) list"

record mapping_entry =
  m_placeholder :: "string option"
  m_column :: string
  m_prefix :: string
  m_group :: string

definition LIST_SEPARATOR :: string where
  "LIST_SEPARATOR = '', ''"

definition LIST_CONJUNCTION :: string where
  "LIST_CONJUNCTION = ''e''"

fun sanitizeCellValue :: "cell \<Rightarrow> string" where
  "sanitizeCellValue CellNull = []"
| "sanitizeCellValue (CellText s) = filter (\<lambda>c. c \<noteq> CHR 0x22) s"
| "sanitizeCellValue (CellOther b s) = s"

definition getRowValue :: "row \<Rightarrow> string \<Rightarrow> cell" where
  "getRowValue row columnName =
     (if columnName = [] then CellText []
      else (case map_of row columnName of
        Some v \<Rightarrow> v
      | None \<Rightarrow>
          (let target = toLowerCase (trim columnName)
           in if target = [] then CellText []
              else (case find (\<lambda>k. toLowerCase (trim k) = target) (map fst row) of
                     None \<Rightarrow> CellText []
                   | Some k \<Rightarrow>
                       if k = [] then CellText []
                       else (case map_of row k of Some v \<Rightarrow> v | None \<Rightarrow> CellNull)))))"

definition buildListPrefix :: "string \<Rightarrow> nat \<Rightarrow> nat \<Rightarrow> string" where
  "buildListPrefix basePrefix position count =
     (if count \<le> 1 \<or> position = 0 then basePrefix
      else if position = count - 1 then
        (let needsSpaceAfter =
               (case basePrefix of [] \<Rightarrow> [] | c # _ \<Rightarrow> if is_space c then [] else '' '')
         in '' '' @ LIST_CONJUNCTION @ needsSpaceAfter @ basePrefix)
      else LIST_SEPARATOR @ basePrefix)"

record item =
  i_index :: nat
  i_key :: string
  i_value :: string
  i_trimmed :: string
  i_hasValue :: bool
  i_prefix :: string
  i_group :: string

text \<open>
  The key of an item is its placeholder without a leading \<open>{{\<close> and without a trailing
  \<open>}}\<close> (the global replace of \<open>/^\{\{|\}\}$/\<close>).
\<close>

definition placeholderKey :: "string \<Rightarrow> string" where
  "placeholderKey p =
     (let a = (if take 2 p = ''{{'' then drop 2 p else p)
      in if 2 \<le> length a \<and> drop (length a - 2) a = ''}}'' then take (length a - 2) a else a)"

definition makeItem :: "row \<Rightarrow> nat \<Rightarrow> mapping_entry \<Rightarrow> item" where
  "makeItem row idx m =
     (let v = sanitizeCellValue (getRowValue row (m_column m));
          t = trim v
      in \<lparr>i_index = idx,
          i_key = placeholderKey (case m_placeholder m of None \<Rightarrow> [] | Some p \<Rightarrow> p), i_value = v,
          i_trimmed = t, i_hasValue = (t \<noteq> []), i_prefix = m_prefix m,
          i_group = trim (m_group m)\<rparr>)"

definition makeItems :: "mapping_entry list \<Rightarrow> row \<Rightarrow> item list" where
  "makeItems mapping row = map (\<lambda>(idx, m). makeItem row idx m) (enumerate 0 mapping)"

text \<open>
  First pass: \<open>seenByGroup\<close> maps a group to the set of lower-cased trimmed values seen
  so far; an item whose value is already in its group's set loses its \<open>hasValue\<close> flag.
\<close>

fun markDuplicates :: "(string \<rightharpoonup> string set) \<Rightarrow> item list \<Rightarrow> item list" where
  "markDuplicates seenByGroup [] = []"
| "markDuplicates seenByGroup (it # its) =
     (if i_group it = [] \<or> \<not> i_hasValue it then it # markDuplicates seenByGroup its
      else
        let normalized = toLowerCase (i_trimmed it);
            groupSet = (case seenByGroup (i_group it) of None \<Rightarrow> {} | Some s \<Rightarrow> s)
        in if normalized \<in> groupSet
           then it\<lparr>i_hasValue := False\<rparr>
                  # markDuplicates (seenByGroup(i_group it \<mapsto> groupSet)) its
           else it # markDuplicates (seenByGroup(i_group it \<mapsto> insert normalized groupSet)) its)"

text \<open>
  Second pass: the items of each group, in the order the groups were first met; third
  pass: the present items of each group get their position and the group's count.
\<close>

definition groupKeys :: "item list \<Rightarrow> string list" where
  "groupKeys items = foldl set_add [] (map i_group (filter (\<lambda>it. i_group it \<noteq> []) items))"

definition groupItems :: "item list \<Rightarrow> string \<Rightarrow> item list" where
  "groupItems items g = filter (\<lambda>it. i_group it = g) items"

definition groupPositions :: "item list \<Rightarrow> (nat \<times> nat \<times> nat) list" where
  "groupPositions groupItems0 =
     (let present = sort_key i_index (filter i_hasValue groupItems0);
          count = length present
      in map (\<lambda>(pos, it). (i_index it, (pos, count))) (enumerate 0 present))"

definition positions :: "item list \<Rightarrow> (nat \<rightharpoonup> nat \<times> nat)" where
  "positions items =
     foldl (\<lambda>m (k, v). m(k \<mapsto> v)) Map.empty
       (concat (map (\<lambda>g. groupPositions (groupItems items g)) (groupKeys items)))"

definition resolveItem :: "(nat \<rightharpoonup> nat \<times> nat) \<Rightarrow> item \<Rightarrow> string \<times> string" where
  "resolveItem pos it =
     (if \<not> i_hasValue it then (i_key it, [])
      else
        let posInfo = (if i_group it \<noteq> [] then pos (i_index it) else None);
            prefix = (case posInfo of
                        None \<Rightarrow> i_prefix it
                      | Some (p, count) \<Rightarrow> buildListPrefix (i_prefix it) p count)
        in (i_key it, prefix @ i_value it))"

text \<open>
  \<open>resolvedEntries\<close> lists the assignments \<open>values[item.key] = ...\<close> in the order the last
  loop makes them; \<open>resolveRowValues\<close> is the object they leave behind, a later
  assignment to a key replacing an earlier one. The object starts as \<open>{}\<close> and the values
  assigned are strings: under the key \<open>__proto__\<close> the assignment reaches the accessor
  inherited from \<open>Object.prototype\<close>, whose setter ignores a value that is not an object,
  so it leaves no property behind. The model is the map of the own properties.
\<close>

definition assign :: "(string \<rightharpoonup> 'v) \<Rightarrow> string \<Rightarrow> 'v \<Rightarrow> (string \<rightharpoonup> 'v)" where
  "assign obj k v = (if k = ''__proto__'' then obj else obj(k \<mapsto> v))"

definition resolvedEntries :: "mapping_entry list \<Rightarrow> row \<Rightarrow> (string \<times> string) list" where
  "resolvedEntries mapping row =
     (let items = markDuplicates Map.empty (makeItems mapping row)
      in map (resolveItem (positions items)) items)"

definition assignAll :: "(string \<rightharpoonup> 'v) \<Rightarrow> (string \<times> 'v) list \<Rightarrow> (string \<rightharpoonup> 'v)" where
  "assignAll obj kvs = foldl (\<lambda>m (k, v). assign m k v) obj kvs"

definition resolveRowValues :: "mapping_entry list \<Rightarrow> row \<Rightarrow> (string \<rightharpoonup> string)" where
  "resolveRowValues mapping row = assignAll Map.empty (resolvedEntries mapping row)"

section \<open>Template sanitising and placeholder extraction\<close>

text \<open>
  The regular expressions of the source are written out as scanners. A global replace
  tries a match at each position from left to right and resumes after a match; where
  the pattern does not match, the character is kept and the scan moves one position on.
\<close>

definition starts_with :: "string \<Rightarrow> string \<Rightarrow> bool" where
  "starts_with p s = (take (length p) s = p)"

text \<open>\<open>replace(/<[^>]+>/g, "")\<close>: a \<open><\<close>, one or more characters other than \<open>>\<close>, a \<open>>\<close>.\<close>

function stripTags :: "string \<Rightarrow> string" where
  "stripTags [] = []"
| "stripTags (c # cs) =
     (if c = CHR ''<'' then
        (let body = takeWhile (\<lambda>x. x \<noteq> CHR ''>'') cs;
             rest = dropWhile (\<lambda>x. x \<noteq> CHR ''>'') cs
         in if body \<noteq> [] \<and> rest \<noteq> [] then stripTags (tl rest) else c # stripTags cs)
      else c # stripTags cs)"
  by pat_completeness auto
termination
proof (relation "measure length")
  show "wf (measure length)" by simp
next
  fix c :: char and cs body rest
  assume "rest = dropWhile (\<lambda>x. x \<noteq> CHR ''>'') cs"
  then have "length rest \<le> length cs"
    by (simp add: length_dropWhile_le)
  then have "length (tl rest) \<le> length cs" by simp
  then show "(tl rest, c # cs) \<in> measure length" by simp
qed simp_all

text \<open>
  One attempt of \<open>/{{\s*([^}]+?)\s*}}/\<close> at the start of a string. Between the braces
  the pattern only consumes characters other than \<open>}\<close>, so the enclosed text is the
  longest run of such characters, it must be non-empty and \<open>}}\<close> must follow it. The
  group captures that text without its leading white space and without its trailing white
  space; when the text is white space only, backtracking leaves its last character to the
  group. The result is the captured text and the rest of the string after the match.
\<close>

definition capture :: "string \<Rightarrow> string" where
  "capture body =
     (let b = dropWhile is_space body
      in if b = [] then [last body] else rev (dropWhile is_space (rev b)))"

definition matchPlaceholder :: "string \<Rightarrow> (string \<times> string) option" where
  "matchPlaceholder s =
     (if starts_with ''{{'' s then
        (let body = takeWhile (\<lambda>x. x \<noteq> CHR ''}'') (drop 2 s);
             rest = dropWhile (\<lambda>x. x \<noteq> CHR ''}'') (drop 2 s)
         in if body \<noteq> [] \<and> starts_with ''}}'' rest then Some (capture body, drop 2 rest)
            else None)
      else None)"

lemma starts_with_length: "starts_with p s \<Longrightarrow> length p \<le> length s"
proof -
  assume "starts_with p s"
  then have "take (length p) s = p" unfolding starts_with_def .
  then have "length (take (length p) s) = length p" by (rule arg_cong)
  then show ?thesis by simp
qed

lemma matchPlaceholder_shorter:
  "matchPlaceholder s = Some (cap, rest) \<Longrightarrow> length rest < length s"
proof -
  assume m: "matchPlaceholder s = Some (cap, rest)"
  let ?r = "dropWhile (\<lambda>x. x \<noteq> CHR ''}'') (drop 2 s)"
  from m have st: "starts_with ''{{'' s" and r: "rest = drop 2 ?r"
    by (auto simp: matchPlaceholder_def Let_def split: if_splits)
  from st have "length ''{{'' \<le> length s" by (rule starts_with_length)
  then have "2 \<le> length s" by simp
  moreover have "length ?r \<le> length (drop 2 s)" by (rule length_dropWhile_le)
  ultimately show ?thesis using r by simp
qed

text \<open>The \<open>exec\<close> loop of \<open>extractPlaceholders\<close>: every match of the global pattern, trimmed.\<close>

function scanPlaceholders :: "string \<Rightarrow> string list" where
  "scanPlaceholders [] = []"
| "scanPlaceholders (c # cs) =
     (case matchPlaceholder (c # cs) of
        Some (cap, rest) \<Rightarrow> trim cap # scanPlaceholders rest
      | None \<Rightarrow> scanPlaceholders cs)"
  by pat_completeness auto
termination
  by (relation "measure length") (auto dest: matchPlaceholder_shorter)

text \<open>\<open>cleaned.match(...)\<close> without the global flag: the first match anywhere.\<close>

fun firstPlaceholder :: "string \<Rightarrow> string option" where
  "firstPlaceholder [] = None"
| "firstPlaceholder (c # cs) =
     (case matchPlaceholder (c # cs) of
        Some (cap, rest) \<Rightarrow> Some cap
      | None \<Rightarrow> firstPlaceholder cs)"

text \<open>
  \<open>indexOf\<close>: the text before the first occurrence of a pattern and the text after it.
\<close>

fun split_at_first :: "string \<Rightarrow> string \<Rightarrow> (string \<times> string) option" where
  "split_at_first pat [] = (if pat = [] then Some ([], []) else None)"
| "split_at_first pat (c # cs) =
     (if starts_with pat (c # cs) then Some ([], drop (length pat) (c # cs))
      else map_option (\<lambda>(before, after). (c # before, after)) (split_at_first pat cs))"

lemma split_at_first_length:
  "split_at_first pat s = Some (before, after) \<Longrightarrow>
   length before + length pat + length after = length s"
proof (induction s arbitrary: before)
  case Nil
  then show ?case by (simp split: if_splits)
next
  case (Cons c cs)
  show ?case
  proof (cases "starts_with pat (c # cs)")
    case True
    with Cons.prems have "before = []" and "after = drop (length pat) (c # cs)" by simp_all
    moreover from True have "length pat \<le> length (c # cs)" by (rule starts_with_length)
    ultimately show ?thesis by simp
  next
    case False
    with Cons.prems obtain b where b: "split_at_first pat cs = Some (b, after)"
      and before: "before = c # b"
      by auto
    from b have "length b + length pat + length after = length cs" by (rule Cons.IH)
    with before show ?thesis by simp
  qed
qed

text \<open>The six replacements of \<open>normalizeXml\<close>, in the order the source chains them.\<close>

text \<open>\<open>replace(/\{\s+/g, "{")\<close>\<close>

function dropSpaceAfterOpen :: "string \<Rightarrow> string" where
  "dropSpaceAfterOpen [] = []"
| "dropSpaceAfterOpen (c # cs) =
     (if c = CHR ''{'' then c # dropSpaceAfterOpen (dropWhile is_space cs)
      else c # dropSpaceAfterOpen cs)"
  by pat_completeness auto
termination
  by (relation "measure length") (auto simp: length_dropWhile_le less_Suc_eq_le)

text \<open>\<open>replace(/\s+\}/g, "}")\<close>\<close>

function dropSpaceBeforeClose :: "string \<Rightarrow> string" where
  "dropSpaceBeforeClose [] = []"
| "dropSpaceBeforeClose (c # cs) =
     (if is_space c then
        (let rest = dropWhile is_space cs
         in if starts_with ''}'' rest then CHR ''}'' # dropSpaceBeforeClose (tl rest)
            else c # dropSpaceBeforeClose cs)
      else c # dropSpaceBeforeClose cs)"
  by pat_completeness auto
termination
proof (relation "measure length")
  show "wf (measure length)" by simp
next
  fix c :: char and cs rest
  assume "rest = dropWhile is_space cs"
  then have "length rest \<le> length cs"
    by (simp add: length_dropWhile_le)
  then have "length (tl rest) \<le> length cs" by simp
  then show "(tl rest, c # cs) \<in> measure length" by simp
qed simp_all

text \<open>
  \<open>replace(/\{ {0,}\{+/g, "{{")\<close> and \<open>replace(/\} {0,}\}+/g, "}}")\<close>: a brace, any number
  of spaces, one or more braces of the same kind.
\<close>

function joinBraces :: "char \<Rightarrow> string \<Rightarrow> string" where
  "joinBraces b [] = []"
| "joinBraces b (c # cs) =
     (if c = b then
        (let rest = dropWhile (\<lambda>x. x = CHR '' '') cs
         in if rest \<noteq> [] \<and> hd rest = b
            then b # b # joinBraces b (dropWhile (\<lambda>x. x = b) rest)
            else c # joinBraces b cs)
      else c # joinBraces b cs)"
  by pat_completeness auto
termination
proof (relation "measure (\<lambda>(b, s). length s)")
  show "wf (measure (\<lambda>(b, s). length s))" by simp
next
  fix b c :: char and cs rest
  assume "rest = dropWhile (\<lambda>x. x = CHR '' '') cs"
  then have "length rest \<le> length cs" by (simp add: length_dropWhile_le)
  moreover have "length (dropWhile (\<lambda>x. x = b) rest) \<le> length rest"
    by (rule length_dropWhile_le)
  ultimately have "length (dropWhile (\<lambda>x. x = b) rest) \<le> length cs" by simp
  then show "((b, dropWhile (\<lambda>x. x = b) rest), (b, c # cs)) \<in> measure (\<lambda>(b, s). length s)"
    by simp
qed simp_all

text \<open>
  \<open>replace(/\{+/g, (m) => (m.length >= 2 ? "{{" : "{"))\<close> and the same for \<open>}\<close>.
\<close>

function collapseBraces :: "char \<Rightarrow> string \<Rightarrow> string" where
  "collapseBraces b [] = []"
| "collapseBraces b (c # cs) =
     (if c = b then
        (if takeWhile (\<lambda>x. x = b) cs \<noteq> [] then [b, b] else [b])
          @ collapseBraces b (dropWhile (\<lambda>x. x = b) cs)
      else c # collapseBraces b cs)"
  by pat_completeness auto
termination
  by (relation "measure (\<lambda>(b, s). length s)") (auto simp: length_dropWhile_le less_Suc_eq_le)

definition normalizeXml :: "string \<Rightarrow> string" where
  "normalizeXml xml =
     collapseBraces (CHR ''}'') (collapseBraces (CHR ''{'')
       (joinBraces (CHR ''}'') (joinBraces (CHR ''{'')
         (dropSpaceBeforeClose (dropSpaceAfterOpen xml)))))"

text \<open>
  \<open>fixSplitPlaceholders\<close>, as a recursion on the text from the cursor on: up to the next
  \<open>{{\<close> the text is kept, the chunk from there to the next \<open>}}\<close> is replaced by a clean
  token, and the loop goes on after it. Without a further \<open>{{\<close> or \<open>}}\<close> the rest of
  the text is kept as it is.
\<close>

definition cleanToken :: "string \<Rightarrow> string" where
  "cleanToken chunk =
     (let cleaned = stripTags chunk;
          placeholder =
            (case firstPlaceholder cleaned of
               Some cap \<Rightarrow> trim cap
             | None \<Rightarrow> trim (filter (\<lambda>c. c \<noteq> CHR ''{'' \<and> c \<noteq> CHR ''}'') cleaned))
      in ''{{'' @ placeholder @ ''}}'')"

function fixSplitPlaceholders :: "string \<Rightarrow> string" where
  "fixSplitPlaceholders xml =
     (case split_at_first ''{{'' xml of
        None \<Rightarrow> xml
      | Some (before, afterOpen) \<Rightarrow>
          (case split_at_first ''}}'' afterOpen of
             None \<Rightarrow> xml
           | Some (inner, rest) \<Rightarrow>
               before @ cleanToken (''{{'' @ inner @ ''}}'') @ fixSplitPlaceholders rest))"
  by pat_completeness auto
termination
proof (relation "measure length")
  show "wf (measure length)" by simp
next
  fix xml :: string and x2 before afterOpen x2a inner rest
  assume a: "split_at_first ''{{'' xml = Some x2" and b: "(before, afterOpen) = x2"
    and c: "split_at_first ''}}'' afterOpen = Some x2a" and d: "(inner, rest) = x2a"
  from a b have "split_at_first ''{{'' xml = Some (before, afterOpen)" by simp
  then have 1: "length before + length ''{{'' + length afterOpen = length xml"
    by (rule split_at_first_length)
  from c d have "split_at_first ''}}'' afterOpen = Some (inner, rest)" by simp
  then have 2: "length inner + length ''}}'' + length rest = length afterOpen"
    by (rule split_at_first_length)
  from 1 2 show "(rest, xml) \<in> measure length" by simp
qed

declare fixSplitPlaceholders.simps [simp del]

text \<open>
  The DOCX archive is read and written by the PizZip library: \<open>readXml\<close> gives the text of
  \<open>word/document.xml\<close>, or nothing when the buffer is not an archive holding that file (the
  source then throws); \<open>writeXml\<close> gives the archive with that text replaced.
\<close>

record zip_lib =
  readXml :: "buffer \<Rightarrow> string option"
  writeXml :: "buffer \<Rightarrow> string \<Rightarrow> buffer"

definition sanitizeTemplateBuffer :: "zip_lib \<Rightarrow> buffer \<Rightarrow> buffer option" where
  "sanitizeTemplateBuffer z templateBuffer =
     (case readXml z templateBuffer of
        None \<Rightarrow> None
      | Some xml \<Rightarrow> Some (writeXml z templateBuffer (fixSplitPlaceholders (normalizeXml xml))))"

definition extractPlaceholders :: "zip_lib \<Rightarrow> buffer \<Rightarrow> string list option" where
  "extractPlaceholders z templateBuffer =
     (case sanitizeTemplateBuffer z templateBuffer of
        None \<Rightarrow> None
      | Some cleaned \<Rightarrow>
          (case readXml z cleaned of
             None \<Rightarrow> None
           | Some xml \<Rightarrow> Some (foldl set_add [] (scanPlaceholders (stripTags xml)))))"

section \<open>Job registry: pause and resume\<close>

text \<open>
  The batch document server keeps its jobs in a process-wide \<open>Map\<close> from job id to a
  mutable job object. A job's \<open>status\<close> only ever holds one of the four strings
  \<open>running\<close>, \<open>paused\<close>, \<open>done\<close> and \<open>error\<close>, its \<open>type\<close> one of \<open>generate\<close> and
  \<open>send\<close>. The fields \<open>pausePromise\<close> and \<open>resume\<close> hold a promise and its resolve
  callback, or \<open>null\<close>; the model records whether they are set. \<open>Date.now()\<close> is an
  input of every function that reads the clock.
\<close>

datatype job_status = Running | Paused | Done | Error

datatype job_kind = Generate | Send

datatype job_result =
  GenerateResult (docxZipBuffer: buffer) (pdfZipBuffer: "buffer option") (pdfGenerated: bool)
| SendResult (res_sent: nat) (res_failed: nat) (res_errors: "string list")
    (reportBuffer: "buffer option")

record job =
  job_id :: string
  job_type :: job_kind
  status :: job_status
  job_total :: nat
  current :: nat
  message :: string
  error :: string
  emailTotal :: nat
  emailSent :: nat
  emailFailed :: nat
  paused :: bool
  pausePromise :: bool
  resume :: bool
  result :: "job_result option"
  createdAt :: nat
  updatedAt :: nat

definition touchJob :: "nat \<Rightarrow> job \<Rightarrow> job" where
  "touchJob now j = j\<lparr>updatedAt := now\<rparr>"

definition createJob :: "string \<Rightarrow> job_kind \<Rightarrow> nat \<Rightarrow> job" where
  "createJob new_id ty now =
     \<lparr>job_id = new_id, job_type = ty, status = Running, job_total = 0, current = 0,
      message = [], error = [], emailTotal = 0, emailSent = 0, emailFailed = 0,
      paused = False, pausePromise = False, resume = False, result = None,
      createdAt = now, updatedAt = now\<rparr>"

definition pauseJob :: "nat \<Rightarrow> job \<Rightarrow> job" where
  "pauseJob now j =
     (if status j \<noteq> Running then j
      else
        let j1 = j\<lparr>paused := True, status := Paused\<rparr>;
            j2 = (if \<not> pausePromise j1 then j1\<lparr>pausePromise := True, resume := True\<rparr> else j1)
        in touchJob now j2)"

text \<open>
  \<open>resumeJob\<close> tests the \<open>paused\<close> flag, not the status. Calling the stored resolve
  callback wakes the runner; on the job object it leaves no trace beyond the two fields
  being reset to \<open>null\<close>.
\<close>

definition resumeJob :: "nat \<Rightarrow> job \<Rightarrow> job" where
  "resumeJob now j =
     (if \<not> paused j then j
      else touchJob now (j\<lparr>paused := False, status := Running, pausePromise := False,
                            resume := False\<rparr>))"

text \<open>
  The two request handlers \<open>POST /jobs/:id/pause\<close> and \<open>POST /jobs/:id/resume\<close>. The
  reply is either the 404 error object or a JSON object carrying the status.
\<close>

datatype reply = NotFound | StatusReply job_status

type_synonym registry = "string \<rightharpoonup> job"

definition pause_request :: "registry \<Rightarrow> string \<Rightarrow> nat \<Rightarrow> registry \<times> reply" where
  "pause_request jobs rid now =
     (case jobs rid of
        None \<Rightarrow> (jobs, NotFound)
      | Some j \<Rightarrow>
          if status j = Done \<or> status j = Error then (jobs, StatusReply (status j))
          else let j' = pauseJob now j in (jobs(rid \<mapsto> j'), StatusReply (status j')))"

definition resume_request :: "registry \<Rightarrow> string \<Rightarrow> nat \<Rightarrow> registry \<times> reply" where
  "resume_request jobs rid now =
     (case jobs rid of
        None \<Rightarrow> (jobs, NotFound)
      | Some j \<Rightarrow>
          if status j = Done \<or> status j = Error then (jobs, StatusReply (status j))
          else let j' = resumeJob now j in (jobs(rid \<mapsto> j'), StatusReply (status j')))"

datatype request = PauseRequest string nat | ResumeRequest string nat

fun handle_request :: "registry \<Rightarrow> request \<Rightarrow> registry \<times> reply" where
  "handle_request jobs (PauseRequest rid now) = pause_request jobs rid now"
| "handle_request jobs (ResumeRequest rid now) = resume_request jobs rid now"

fun handle_requests :: "registry \<Rightarrow> request list \<Rightarrow> registry" where
  "handle_requests jobs [] = jobs"
| "handle_requests jobs (r # rs) = handle_requests (fst (handle_request jobs r)) rs"

section \<open>Conversion to PDF\<close>

text \<open>
  A call into a library or into the operating system either returns a value or throws
  (for an \<open>async\<close> function: its promise is rejected); \<open>Threw\<close> carries the text of the
  error. A line written to the console is a \<open>console.warn\<close>, a \<open>console.error\<close> or a
  \<open>console.log\<close>.
\<close>

datatype 'a outcome = Threw string | Returned 'a

datatype log_entry = Warn string | Err string | Info string

text \<open>
  \<open>isPdfBuffer\<close>: \<open>null\<close> is not a PDF, a buffer shorter than four bytes is not one, any
  other buffer is one when its first four bytes read \<open>%PDF\<close>.
\<close>

definition isPdfBuffer :: "buffer option \<Rightarrow> bool" where
  "isPdfBuffer buffer =
     (case buffer of
        None \<Rightarrow> False
      | Some buf \<Rightarrow> if length buf < 4 then False else take 4 buf = ''%PDF'')"

text \<open>
  The three converters reach outside the program: Microsoft Word driven through
  PowerShell, the LibreOffice binding \<open>convertAsync\<close>, and mammoth with a headless browser.
  \<open>runMsOffice\<close> stands for the body of the \<open>try\<close> block of \<open>convertWithMsOffice\<close> up to
  reading the output file: it throws, or finds no output file, or reads the file.
  \<open>convertAsync\<close> throws or returns a buffer or nothing; \<open>printPdf\<close> stands for the body of
  the \<open>try\<close> block of \<open>convertWithPuppeteer\<close>. \<open>mkdtemp\<close> and \<open>removeTemp\<close> create and
  remove the temporary directory.
\<close>

record converters =
  platform :: string
  mkdtemp :: "string outcome"
  removeTemp :: "unit outcome"
  runMsOffice :: "buffer \<Rightarrow> buffer option outcome"
  convertAsync :: "buffer \<Rightarrow> buffer option outcome"
  printPdf :: "buffer \<Rightarrow> buffer outcome"

definition nonEmptyOrNull :: "buffer \<Rightarrow> buffer option" where
  "nonEmptyOrNull pdf = (if pdf \<noteq> [] then Some pdf else None)"

text \<open>
  \<open>convertWithMsOffice\<close> creates its temporary directory before the \<open>try\<close> block, so a
  failure there is not caught. The \<open>finally\<close> block logs a warning when the directory
  cannot be removed.
\<close>

definition convertWithMsOffice ::
    "converters \<Rightarrow> buffer \<Rightarrow> (buffer option \<times> log_entry list) outcome" where
  "convertWithMsOffice cv buffer =
     (if platform cv \<noteq> ''win32'' then Returned (None, [])
      else
        (case mkdtemp cv of
           Threw e \<Rightarrow> Threw e
         | Returned tempDir \<Rightarrow>
             (let cleanup = (case removeTemp cv of
                               Threw e \<Rightarrow> [Warn (''Falha ao limpar temp de conversao: '' @ e)]
                             | Returned u \<Rightarrow> [])
              in case runMsOffice cv buffer of
                   Threw e \<Rightarrow>
                     Returned (None,
                       Err (''Falha ao converter para PDF (Microsoft Office): '' @ e) # cleanup)
                 | Returned None \<Rightarrow> Returned (None, cleanup)
                 | Returned (Some pdf) \<Rightarrow> Returned (nonEmptyOrNull pdf, cleanup))))"

definition convertWithLibreOffice :: "converters \<Rightarrow> buffer \<Rightarrow> buffer option \<times> log_entry list" where
  "convertWithLibreOffice cv buffer =
     (case convertAsync cv buffer of
        Threw e \<Rightarrow> (None, [Err (''Falha ao converter para PDF (LibreOffice): '' @ e)])
      | Returned None \<Rightarrow> (None, [])
      | Returned (Some pdf) \<Rightarrow> (nonEmptyOrNull pdf, []))"

definition convertWithPuppeteer :: "converters \<Rightarrow> buffer \<Rightarrow> buffer option \<times> log_entry list" where
  "convertWithPuppeteer cv buffer =
     (case printPdf cv buffer of
        Threw e \<Rightarrow> (None, [Err (''Falha ao converter para PDF (puppeteer): '' @ e)])
      | Returned pdf \<Rightarrow> (Some pdf, []))"

definition PUPPETEER_NOTICE :: string where
  "PUPPETEER_NOTICE = ''Gerando PDF via Puppeteer; o layout pode divergir do DOCX.''"

text \<open>
  \<open>docxBufferToPdf\<close> tests each result for truthiness only: a buffer object is truthy,
  \<open>null\<close> is not.
\<close>

definition docxBufferToPdf ::
    "converters \<Rightarrow> buffer \<Rightarrow> (buffer option \<times> log_entry list) outcome" where
  "docxBufferToPdf cv buffer =
     (case convertWithMsOffice cv buffer of
        Threw e \<Rightarrow> Threw e
      | Returned (msOfficePdf, log1) \<Rightarrow>
          (case msOfficePdf of
             Some p \<Rightarrow> Returned (Some p, log1)
           | None \<Rightarrow>
               (case convertWithLibreOffice cv buffer of
                  (Some p, log2) \<Rightarrow> Returned (Some p, log1 @ log2)
                | (None, log2) \<Rightarrow>
                    (case convertWithPuppeteer cv buffer of
                       (pdf, log3) \<Rightarrow>
                         Returned (pdf, log1 @ log2 @ [Warn PUPPETEER_NOTICE] @ log3)))))"

section \<open>Email queue and transports\<close>

text \<open>
  A JavaScript \<open>Map\<close> is a list of pairs in insertion order: \<open>set\<close> on a key that is
  present replaces its value where it stands, on a new key it appends.
\<close>

fun map_set :: "('k \<times> 'v) list \<Rightarrow> 'k \<Rightarrow> 'v \<Rightarrow> ('k \<times> 'v) list" where
  "map_set [] k v = [(k, v)]"
| "map_set ((k', v') # m) k v = (if k' = k then (k, v) # m else (k', v') # map_set m k v)"

fun join :: "string \<Rightarrow> string list \<Rightarrow> string" where
  "join sep [] = []"
| "join sep [x] = x"
| "join sep (x # y # ys) = x @ sep @ join sep (y # ys)"

definition ends_with :: "string \<Rightarrow> string \<Rightarrow> bool" where
  "ends_with suffix s = (length suffix \<le> length s \<and> drop (length s - length suffix) s = suffix)"

text \<open>
  \<open>s.replace(/\.docx$/i, r)\<close> and \<open>s.replace(/\.pdf$/i, r)\<close>: the extension is matched
  without regard to case, at the end of the string only.
\<close>

definition replaceExtension :: "string \<Rightarrow> string \<Rightarrow> string \<Rightarrow> string" where
  "replaceExtension ext r s =
     (if ends_with ext (toLowerCase s) then take (length s - length ext) s @ r else s)"

type_synonym attachment = "string \<times> buffer"

text \<open>
  A queue entry holds a recipient and its attachments. \<open>normalizeEmailAttachments\<close> also
  accepts an entry carrying a single \<open>filename\<close> and \<open>buffer\<close>; absent, these are the
  empty string and \<open>None\<close>.
\<close>

record email_item =
  e_to :: string
  e_attachments :: "attachment list"
  e_filename :: string
  e_buffer :: "buffer option"

definition normalizeEmailAttachments :: "email_item \<Rightarrow> attachment list" where
  "normalizeEmailAttachments item =
     (if e_attachments item \<noteq> [] then e_attachments item
      else (case e_buffer item of
              Some b \<Rightarrow> if e_filename item \<noteq> [] then [(e_filename item, b)] else []
            | None \<Rightarrow> []))"

definition formatAttachmentNames :: "attachment list \<Rightarrow> string" where
  "formatAttachmentNames atts = join '', '' (filter (\<lambda>n. n \<noteq> []) (map fst atts))"

definition uniqueRecipients :: "string list \<Rightarrow> string list" where
  "uniqueRecipients recipients =
     map snd (foldl (\<lambda>m addr. map_set m (toLowerCase addr) addr) [] recipients)"

definition sanitizeFilename :: "string \<Rightarrow> string" where
  "sanitizeFilename name =
     (let t = trim (if name = [] then ''arquivo'' else name);
          base = (if t = [] then ''arquivo'' else t)
      in map (\<lambda>c. if c \<in> set [CHR 0x5C, CHR ''/'', CHR '':'', CHR ''*'', CHR ''?'', CHR 0x22,
                                CHR ''<'', CHR ''>'', CHR ''|'']
                  then CHR ''_'' else c) base)"

definition normalizePdfFilename :: "string \<Rightarrow> string" where
  "normalizePdfFilename filename =
     (let base = sanitizeFilename (if filename = [] then ''documento.pdf'' else filename)
      in if ends_with ''.pdf'' (toLowerCase base) then base
         else if ends_with ''.docx'' (toLowerCase base) then replaceExtension ''.docx'' ''.pdf'' base
         else base @ ''.pdf'')"

text \<open>
  \<open>preparePdfAttachment\<close> takes the attachment and a context object, given here as its
  entries with the values already rendered as strings. The warning is written with two
  arguments, which the console prints with one space between them.
\<close>

definition preparePdfAttachment ::
    "string \<Rightarrow> buffer option \<Rightarrow> (string \<times> string) list
       \<Rightarrow> attachment option \<times> log_entry list" where
  "preparePdfAttachment filename buffer context =
     (case buffer of
        None \<Rightarrow> (None, [])
      | Some b \<Rightarrow>
          if \<not> isPdfBuffer (Some b) then
            (let ctx = join '' '' (map (\<lambda>(k, v). k @ ''='' @ v) context)
             in (None, [Warn (''Anexo ignorado: buffer nao e PDF.'' @ '' '' @ ctx)]))
          else (Some (normalizePdfFilename filename, b), []))"

text \<open>
  The loop of \<open>ensureUniqueAttachmentName\<close>: while the lower-cased name is taken for this
  recipient, try the base name with the next counter.
\<close>

definition numbered :: "string \<Rightarrow> nat \<Rightarrow> string \<Rightarrow> string" where
  "numbered base counter ext = base @ ''_'' @ decimal counter @ ext"

text \<open>
  Decimal numerals of different numbers differ, also after lower-casing; so the numbered
  names are pairwise different and only finitely many of them are taken, which is why the
  loop ends.
\<close>

definition undecimal :: "string \<Rightarrow> nat" where
  "undecimal s = foldl (\<lambda>acc c. 10 * acc + (of_char c - 48)) 0 s"

lemma below_ten: "d < 10 \<Longrightarrow> d \<in> {0, 1, 2, 3, 4, 5, 6, 7, 8, 9::nat}"
  by auto

lemma of_char_digit: "d < 10 \<Longrightarrow> (of_char (digit_char d) :: nat) = 48 + d"
  by (drule below_ten) (auto simp: digit_char_def)

lemma undecimal_decimal: "undecimal (decimal n) = n"
proof (induction n rule: decimal.induct)
  case (1 n)
  show ?case
  proof (cases "n < 10")
    case True
    then show ?thesis
      by (subst decimal.simps) (simp add: undecimal_def of_char_digit)
  next
    case False
    then have "undecimal (decimal (n div 10)) = n div 10" by (rule "1.IH")
    with False show ?thesis
      by (subst decimal.simps) (simp add: undecimal_def of_char_digit)
  qed
qed

lemma decimal_inj: "decimal m = decimal n \<Longrightarrow> m = n"
  by (metis undecimal_decimal)

lemma lower_char_digit: "d < 10 \<Longrightarrow> lower_char (digit_char d) = digit_char d"
  by (simp add: lower_char_def Let_def of_char_digit)

lemma toLowerCase_decimal: "toLowerCase (decimal n) = decimal n"
proof (induction n rule: decimal.induct)
  case (1 n)
  show ?case
  proof (cases "n < 10")
    case True
    then show ?thesis
      by (subst (1 2) decimal.simps) (simp add: toLowerCase_def lower_char_digit)
  next
    case False
    then have "toLowerCase (decimal (n div 10)) = decimal (n div 10)" by (rule "1.IH")
    with False show ?thesis
      by (subst (1 2) decimal.simps) (simp add: toLowerCase_def lower_char_digit)
  qed
qed

lemma toLowerCase_append: "toLowerCase (a @ b) = toLowerCase a @ toLowerCase b"
  by (simp add: toLowerCase_def)

lemma numbered_inj: "numbered base m ext = numbered base n ext \<Longrightarrow> m = n"
  by (simp add: numbered_def decimal_inj)

lemma lower_numbered_inj:
  "toLowerCase (numbered base m ext) = toLowerCase (numbered base n ext) \<Longrightarrow> m = n"
proof -
  have "toLowerCase (numbered base k ext)
        = toLowerCase base @ toLowerCase ''_'' @ decimal k @ toLowerCase ext" for k
    by (simp only: numbered_def toLowerCase_append toLowerCase_decimal)
  then show "toLowerCase (numbered base m ext) = toLowerCase (numbered base n ext) \<Longrightarrow> m = n"
    by (simp add: decimal_inj)
qed

lemma finite_taken:
  assumes "\<And>m n. f m = f n \<Longrightarrow> m = n"
  shows "finite {k::nat. f k \<in> set used}"
proof -
  have "inj f" using assms by (auto simp: inj_on_def)
  then have "finite (f -` set used)" by (simp add: finite_vimageI)
  then show ?thesis by (simp add: vimage_def)
qed

lemma taken_from_step:
  assumes "finite {k::nat. P k}"
  shows "card {k. c + 1 \<le> k \<and> P k} + (if P c then 1 else 0) = card {k. c \<le> k \<and> P k}"
proof -
  have fin: "finite {k. c + 1 \<le> k \<and> P k}" using assms by simp
  show ?thesis
  proof (cases "P c")
    case True
    then have "{k. c \<le> k \<and> P k} = insert c {k. c + 1 \<le> k \<and> P k}" by auto
    with fin show ?thesis using True by simp
  next
    case False
    then have "{k. c \<le> k \<and> P k} = {k. c + 1 \<le> k \<and> P k}"
      by (auto simp: Suc_le_eq order_le_less)
    with False show ?thesis by simp
  qed
qed

function attachmentNameLoop :: "string list \<Rightarrow> string \<Rightarrow> nat \<Rightarrow> string \<Rightarrow> string" where
  "attachmentNameLoop used base counter finalName =
     (if toLowerCase finalName \<in> set used
      then attachmentNameLoop used base (counter + 1) (numbered base counter ''.pdf'')
      else finalName)"
  by pat_completeness auto
termination
proof (relation "measure (\<lambda>(used, base, counter, finalName).
         card {k. counter \<le> k \<and> toLowerCase (numbered base k ''.pdf'') \<in> set used}
         + (if toLowerCase finalName \<in> set used then 1 else 0))")
  show "wf (measure (\<lambda>(used, base, counter, finalName).
         card {k. counter \<le> k \<and> toLowerCase (numbered base k ''.pdf'') \<in> set used}
         + (if toLowerCase finalName \<in> set used then 1 else 0)))" by simp
next
  fix used :: "string list" and base :: string and counter :: nat and finalName :: string
  assume taken: "toLowerCase finalName \<in> set used"
  have "finite {k. toLowerCase (numbered base k ''.pdf'') \<in> set used}"
    by (rule finite_taken) (rule lower_numbered_inj)
  from taken_from_step [OF this, of counter] taken
  show "((used, base, counter + 1, numbered base counter ''.pdf''), (used, base, counter, finalName))
        \<in> measure (\<lambda>(used, base, counter, finalName).
             card {k. counter \<le> k \<and> toLowerCase (numbered base k ''.pdf'') \<in> set used}
             + (if toLowerCase finalName \<in> set used then 1 else 0))"
    by simp
qed

declare attachmentNameLoop.simps [simp del]

definition ensureUniqueAttachmentName ::
    "(string \<times> string list) list \<Rightarrow> string \<Rightarrow> string
       \<Rightarrow> string \<times> (string \<times> string list) list" where
  "ensureUniqueAttachmentName usedNamesByRecipient recipient filename =
     (let k = toLowerCase recipient
      in if k = [] then (filename, usedNamesByRecipient)
         else
           let used = (case map_of usedNamesByRecipient k of Some s \<Rightarrow> s | None \<Rightarrow> []);
               base = replaceExtension ''.pdf'' [] filename;
               finalName = attachmentNameLoop used base 2 filename
           in (finalName, map_set usedNamesByRecipient k (set_add used (toLowerCase finalName))))"

definition queueEmailAttachment ::
    "(string \<times> email_item) list \<Rightarrow> string \<Rightarrow> attachment \<Rightarrow> (string \<times> email_item) list" where
  "queueEmailAttachment queue recipient att =
     (let k = toLowerCase recipient
      in if k = [] then queue
         else
           let entry = (case map_of queue k of
                          Some e \<Rightarrow> e
                        | None \<Rightarrow> \<lparr>e_to = recipient, e_attachments = [], e_filename = [],
                                    e_buffer = None\<rparr>)
           in map_set queue k (entry\<lparr>e_attachments := e_attachments entry @ [att]\<rparr>))"

subsection \<open>Sending through SMTP\<close>

text \<open>
  The configuration of a request, the process environment, and the options handed to the
  mail library. \<open>Number(...)\<close> of the port text is left to \<open>toNumber\<close>. A field that is
  not set is the empty string; \<open>secure\<close> is a boolean or absent.
\<close>

record smtp_config =
  cfg_host :: string
  cfg_port :: string
  cfg_user :: string
  cfg_pass :: string
  cfg_from :: string
  cfg_secure :: "bool option"

record smtp_env =
  SMTP_HOST :: string
  SMTP_PORT :: string
  SMTP_USER :: string
  SMTP_PASS :: string
  SMTP_FROM :: string

record smtp_options =
  opt_host :: string
  opt_port :: "nat option"
  opt_secure :: bool
  opt_user :: string
  opt_pass :: string
  opt_from :: string

definition orElse :: "string \<Rightarrow> string \<Rightarrow> string" where
  "orElse a b = (if a \<noteq> [] then a else b)"

definition buildSmtpOptions ::
    "(string \<Rightarrow> nat option) \<Rightarrow> smtp_env \<Rightarrow> smtp_config \<Rightarrow> smtp_options option" where
  "buildSmtpOptions toNumber env config =
     (let host = orElse (cfg_host config) (SMTP_HOST env);
          port = (if cfg_port config \<noteq> [] then toNumber (cfg_port config)
                  else if SMTP_PORT env \<noteq> [] then toNumber (SMTP_PORT env)
                  else Some 587);
          user = orElse (cfg_user config) (SMTP_USER env);
          pass = orElse (cfg_pass config) (SMTP_PASS env)
      in if host = [] \<or> user = [] \<or> pass = [] then None
         else
           Some \<lparr>opt_host = host, opt_port = port,
                 opt_secure = (case cfg_secure config of Some b \<Rightarrow> b | None \<Rightarrow> port = Some 465),
                 opt_user = user, opt_pass = pass,
                 opt_from = orElse (cfg_from config) (orElse (SMTP_FROM env) user)\<rparr>)"

definition DEFAULT_EMAIL_SUBJECT :: string where
  "DEFAULT_EMAIL_SUBJECT = ''Documento gerado''"

definition DEFAULT_EMAIL_MESSAGE :: string where
  "DEFAULT_EMAIL_MESSAGE = ''Segue em anexo o documento gerado automaticamente.''"

record mail =
  mail_from :: string
  mail_to :: string
  mail_subject :: string
  mail_text :: string
  mail_attachments :: "attachment list"

record send_row =
  row_to :: string
  row_filename :: string
  row_status :: string
  row_error :: string

text \<open>
  What a transport returns: the counts, the error lines, and the per-recipient rows; the
  early return of the Outlook transport has no \<open>results\<close> property.
\<close>

record send_result =
  sent :: nat
  failed :: nat
  errors :: "string list"
  results :: "send_row list option"

record progress =
  p_processed :: nat
  p_total :: nat
  p_sent :: nat
  p_failed :: nat

text \<open>
  The state of the loop of \<open>sendEmailsSmtp\<close>, with what the loop does to the world: the
  mails handed to \<open>transporter.sendMail\<close> and the calls of the progress callback.
  \<open>sendMail n m\<close> is the outcome of handing over mail \<open>m\<close> after \<open>n\<close> earlier attempts.
\<close>

record smtp_state =
  s_sent :: nat
  s_processed :: nat
  s_errors :: "string list"
  s_results :: "send_row list"
  s_attempts :: "mail list"
  s_progress :: "progress list"

definition smtpStep ::
    "(nat \<Rightarrow> mail \<Rightarrow> unit outcome) \<Rightarrow> string \<Rightarrow> string \<Rightarrow> string \<Rightarrow> nat
       \<Rightarrow> smtp_state \<Rightarrow> email_item \<Rightarrow> smtp_state" where
  "smtpStep sendMail from subject msg n st item =
     (let attachments = normalizeEmailAttachments item;
          filenameList = formatAttachmentNames attachments;
          report = (\<lambda>s. s\<lparr>s_processed := s_processed s + 1,
                           s_progress := s_progress s @
                             [\<lparr>p_processed = s_processed s + 1, p_total = n, p_sent = s_sent s,
                               p_failed = s_processed s + 1 - s_sent s\<rparr>]\<rparr>)
      in if attachments = [] then
           report (st\<lparr>s_errors := s_errors st @ [''Erro para '' @ e_to item @ '': Sem anexos para enviar''],
                      s_results := s_results st @
                        [\<lparr>row_to = e_to item, row_filename = filenameList, row_status = ''failed'',
                          row_error = ''Sem anexos para enviar''\<rparr>]\<rparr>)
         else
           let m = \<lparr>mail_from = from, mail_to = e_to item,
                    mail_subject = orElse subject DEFAULT_EMAIL_SUBJECT,
                    mail_text = orElse msg DEFAULT_EMAIL_MESSAGE,
                    mail_attachments = attachments\<rparr>;
               st1 = st\<lparr>s_attempts := s_attempts st @ [m]\<rparr>
           in case sendMail (length (s_attempts st)) m of
                Returned u \<Rightarrow>
                  report (st1\<lparr>s_sent := s_sent st1 + 1,
                              s_results := s_results st1 @
                                [\<lparr>row_to = e_to item, row_filename = filenameList,
                                  row_status = ''sent'', row_error = []\<rparr>]\<rparr>)
              | Threw e \<Rightarrow>
                  report (st1\<lparr>s_errors := s_errors st1 @ [''Erro para '' @ e_to item @ '': '' @ e],
                              s_results := s_results st1 @
                                [\<lparr>row_to = e_to item, row_filename = filenameList,
                                  row_status = ''failed'', row_error = e\<rparr>]\<rparr>))"

record smtp_run =
  run_result :: send_result
  run_attempts :: "mail list"
  run_progress :: "progress list"

definition sendEmailsSmtp ::
    "(string \<Rightarrow> nat option) \<Rightarrow> smtp_env \<Rightarrow> (nat \<Rightarrow> mail \<Rightarrow> unit outcome)
       \<Rightarrow> email_item list \<Rightarrow> string \<Rightarrow> string \<Rightarrow> smtp_config \<Rightarrow> smtp_run" where
  "sendEmailsSmtp toNumber env sendMail queue subject msg smtpConfig =
     (case buildSmtpOptions toNumber env smtpConfig of
        None \<Rightarrow>
          \<lparr>run_result =
             \<lparr>sent = 0, failed = length queue, errors = [''SMTP nao configurado''],
              results = Some (map (\<lambda>item.
                 \<lparr>row_to = e_to item,
                  row_filename = formatAttachmentNames (normalizeEmailAttachments item),
                  row_status = ''failed'', row_error = ''SMTP nao configurado''\<rparr>) queue)\<rparr>,
           run_attempts = [], run_progress = []\<rparr>
      | Some options \<Rightarrow>
          (let st = foldl (smtpStep sendMail (opt_from options) subject msg (length queue))
                      \<lparr>s_sent = 0, s_processed = 0, s_errors = [], s_results = [],
                       s_attempts = [], s_progress = []\<rparr> queue
           in \<lparr>run_result =
                 \<lparr>sent = s_sent st, failed = length queue - s_sent st, errors = s_errors st,
                  results = Some (s_results st)\<rparr>,
               run_attempts = s_attempts st, run_progress = s_progress st\<rparr>))"

subsection \<open>Sending through Outlook\<close>

text \<open>
  \<open>runOutlook\<close> stands for the body of the \<open>try\<close> block of \<open>sendEmailsOutlook\<close>: writing
  the attachments and the queue to the temporary directory, running the PowerShell
  script, and parsing the report it prints. It throws, or returns the rows of the report.
  \<open>makeTemp\<close> creates the temporary directory, before the \<open>try\<close> block.
\<close>

record outlook_env =
  o_platform :: string
  makeTemp :: "string outcome"
  runOutlook :: "mail list \<Rightarrow> string \<Rightarrow> send_row list outcome"

definition countStatus :: "string \<Rightarrow> send_row list \<Rightarrow> nat" where
  "countStatus s report = length (filter (\<lambda>r. row_status r = s) report)"

definition sendEmailsOutlook ::
    "outlook_env \<Rightarrow> email_item list \<Rightarrow> string \<Rightarrow> string \<Rightarrow> string \<Rightarrow> send_result outcome" where
  "sendEmailsOutlook env queue subject msg outlookFrom =
     (if o_platform env \<noteq> ''win32'' then
        Returned \<lparr>sent = 0, failed = length queue,
                  errors = [''Outlook disponivel apenas no Windows.''], results = None\<rparr>
      else
        (case makeTemp env of
           Threw e \<Rightarrow> Threw e
         | Returned tempDir \<Rightarrow>
             (let payload = map (\<lambda>(idx, item).
                      \<lparr>mail_from = trim outlookFrom, mail_to = e_to item,
                       mail_subject = orElse subject DEFAULT_EMAIL_SUBJECT,
                       mail_text = orElse msg DEFAULT_EMAIL_MESSAGE,
                       mail_attachments =
                         map (\<lambda>(attIdx, (name, b)).
                                (sanitizeFilename
                                   (orElse name (''documento_'' @ decimal (idx + 1) @ ''_''
                                                   @ decimal (attIdx + 1) @ ''.pdf'')), b))
                           (enumerate 0 (normalizeEmailAttachments item))\<rparr>)
                    (enumerate 0 queue)
              in case runOutlook env payload (trim outlookFrom) of
                   Returned report \<Rightarrow>
                     Returned
                       \<lparr>sent = countStatus ''sent'' report,
                        failed = countStatus ''failed'' report + countStatus ''skipped'' report,
                        errors = map (\<lambda>r. row_to r @ '': '' @ row_error r)
                                   (filter (\<lambda>r. row_error r \<noteq> []) report),
                        results = Some report\<rparr>
                 | Threw e \<Rightarrow>
                     Returned
                       \<lparr>sent = 0, failed = length queue, errors = [e],
                        results = Some (map (\<lambda>item.
                          \<lparr>row_to = e_to item,
                           row_filename = formatAttachmentNames (normalizeEmailAttachments item),
                           row_status = ''failed'', row_error = e\<rparr>) queue)\<rparr>)))"

section \<open>The generate job\<close>

text \<open>\<open>filename.replace(/{([^}]+)}/g, (_, key) => ...)\<close>: every \<open>{key}\<close> is looked up.\<close>

function expandTemplate :: "(string \<Rightarrow> string) \<Rightarrow> string \<Rightarrow> string" where
  "expandTemplate lookup [] = []"
| "expandTemplate lookup (c # cs) =
     (if c = CHR ''{'' then
        (let k = takeWhile (\<lambda>x. x \<noteq> CHR ''}'') cs;
             rest = dropWhile (\<lambda>x. x \<noteq> CHR ''}'') cs
         in if k \<noteq> [] \<and> rest \<noteq> [] then lookup k @ expandTemplate lookup (tl rest)
            else c # expandTemplate lookup cs)
      else c # expandTemplate lookup cs)"
  by pat_completeness auto
termination
proof (relation "measure (\<lambda>(f, s). length s)")
  show "wf (measure (\<lambda>(f :: string \<Rightarrow> string, s :: string). length s))" by simp
next
  fix lookup :: "string \<Rightarrow> string" and c :: char and cs k rest
  assume "rest = dropWhile (\<lambda>x. x \<noteq> CHR ''}'') cs"
  then have "length rest \<le> length cs"
    by (simp add: length_dropWhile_le)
  then have "length (tl rest) \<le> length cs" by simp
  then show "((lookup, tl rest), (lookup, c # cs)) \<in> measure (\<lambda>(f, s). length s)" by simp
qed simp_all

text \<open>
  The lookup object is the row with \<open>index\<close> and \<open>primary\<close> added, \<open>primary\<close> falling back
  to the row number when the primary cell is falsy. A key that is not a property of its
  own reaches what the object inherits from \<open>Object.prototype\<close>: the prototype itself
  under \<open>__proto__\<close>, and the built-in functions, which \<open>String(...)\<close> renders as Node
  prints a native function.
\<close>

definition prototypeMember :: "string \<Rightarrow> string option" where
  "prototypeMember k =
     (if k = ''__proto__'' then Some ''[object Object]''
      else if k = ''constructor'' then Some ''function Object() { [native code] }''
      else if k \<in> set [''__defineGetter__'', ''__defineSetter__'', ''hasOwnProperty'',
                        ''__lookupGetter__'', ''__lookupSetter__'', ''isPrototypeOf'',
                        ''propertyIsEnumerable'', ''toString'', ''valueOf'', ''toLocaleString'']
      then Some (''function '' @ k @ ''() { [native code] }'')
      else None)"

fun truthy :: "cell \<Rightarrow> bool" where
  "truthy (CellText s) = (s \<noteq> [])"
| "truthy (CellOther b s) = b"
| "truthy CellNull = False"

fun cellString :: "cell \<Rightarrow> string" where
  "cellString (CellText s) = s"
| "cellString (CellOther b s) = s"
| "cellString CellNull = []"

definition ctxValue :: "row \<Rightarrow> nat \<Rightarrow> cell \<Rightarrow> string \<Rightarrow> string" where
  "ctxValue row idx primaryValue k =
     (if k = ''primary'' then
        (if truthy primaryValue then cellString primaryValue else decimal (idx + 1))
      else if k = ''index'' then decimal (idx + 1)
      else (case map_of row k of
              Some v \<Rightarrow> cellString v
            | None \<Rightarrow> (case prototypeMember k of Some t \<Rightarrow> t | None \<Rightarrow> [])))"

definition primaryColumn :: "mapping_entry list \<Rightarrow> string \<Rightarrow> string" where
  "primaryColumn mapping primaryPlaceholder =
     (let primaryMap =
            (case find (\<lambda>m. m_placeholder m = Some primaryPlaceholder) mapping of
               Some m \<Rightarrow> Some m
             | None \<Rightarrow> (case mapping of [] \<Rightarrow> None | m # ms \<Rightarrow> Some m))
      in case primaryMap of
           None \<Rightarrow> ''linha''
         | Some m \<Rightarrow> orElse (m_column m) ''linha'')"

record gen_input =
  rows :: "row list"
  templateBuffer :: buffer
  mapping :: "mapping_entry list"
  placeholders :: "string list"
  nameTemplate :: string
  primaryPlaceholder :: string
  emailColumn :: string
  emailSubject :: string
  emailMessage :: string
  emailMode :: string
  smtpConfig :: smtp_config
  outlookFrom :: string

definition rowFilename :: "gen_input \<Rightarrow> nat \<Rightarrow> row \<Rightarrow> string" where
  "rowFilename inp idx row =
     (let primaryCol = primaryColumn (mapping inp) (primaryPlaceholder inp);
          primaryValue = getRowValue row primaryCol;
          filename = expandTemplate (ctxValue row idx primaryValue)
                       (orElse (nameTemplate inp) ''output_{index}_{primary}.docx'')
      in if ends_with ''.docx'' (toLowerCase filename) then filename else filename @ ''.docx'')"

text \<open>
  The loop that makes the file name unique. It ends only if the numbered names differ
  from one another, which the source gets from the name ending in \<open>.docx\<close>; the loop
  itself does not test that, so as a function of arbitrary arguments it is partial.
\<close>

partial_function (option) uniqueDocxName ::
    "string list \<Rightarrow> string \<Rightarrow> nat \<Rightarrow> string \<Rightarrow> string option" where
  "uniqueDocxName used filename counter finalName =
     (if finalName \<in> set used
      then uniqueDocxName used filename (counter + 1)
             (replaceExtension ''.docx'' (''_'' @ decimal counter @ ''.docx'') filename)
      else Some finalName)"

declare uniqueDocxName.simps [code]

text \<open>
  What the collaborators of the runner do is a parameter of the model: rendering the
  template (\<open>renderDoc\<close>, which throws on a broken archive), the address pattern of
  \<open>parseRecipients\<close>, writing a PDF below \<open>OUTPUT_PDF\<close>, and \<open>generateAsync\<close> of an archive
  given its entries. What is proved of the job holds for every such collaborator.
\<close>

record gen_env =
  conv :: converters
  renderDoc :: "buffer \<Rightarrow> (string \<rightharpoonup> string) \<Rightarrow> string list \<Rightarrow> buffer outcome"
  parseRecipients :: "cell \<Rightarrow> string list"
  savePdf :: "string \<Rightarrow> buffer \<Rightarrow> unit outcome"
  generateZip :: "(string \<times> buffer) list \<Rightarrow> buffer outcome"

text \<open>
  The state of the row loop. The two archives are the entries added with \<open>file(name,
  data)\<close>, in order (folder entries are not modelled). Each console line is paired with
  the number of the row (from 0) during which it was written.
\<close>

record gen_state =
  zipDocx :: "(string \<times> buffer) list"
  zipPdf :: "(string \<times> buffer) list"
  usedNames :: "string list"
  emailQueue :: "(string \<times> email_item) list"
  usedNamesByRecipient :: "(string \<times> string list) list"
  console :: "(nat \<times> log_entry) list"
  the_job :: job

definition logAll :: "nat \<Rightarrow> log_entry list \<Rightarrow> gen_state \<Rightarrow> gen_state" where
  "logAll idx entries st = st\<lparr>console := console st @ map (\<lambda>e. (idx, e)) entries\<rparr>"

text \<open>
  The data of a row: every known placeholder mapped to the empty string, overridden by
  what the row resolves to.
\<close>

definition placeholderDefaults :: "string list \<Rightarrow> (string \<rightharpoonup> string)" where
  "placeholderDefaults phs = assignAll Map.empty (map (\<lambda>ph. (ph, [])) phs)"

definition rowData :: "gen_input \<Rightarrow> row \<Rightarrow> (string \<rightharpoonup> string)" where
  "rowData inp row = placeholderDefaults (placeholders inp) ++ resolveRowValues (mapping inp) row"

definition queueForRecipients ::
    "attachment option \<Rightarrow> gen_state \<Rightarrow> string list \<Rightarrow> gen_state" where
  "queueForRecipients attachment st recipients =
     foldl (\<lambda>s recipient.
              case attachment of
                None \<Rightarrow> s
              | Some (name, b) \<Rightarrow>
                  (case ensureUniqueAttachmentName (usedNamesByRecipient s) recipient name of
                     (uniqueName, used') \<Rightarrow>
                       s\<lparr>usedNamesByRecipient := used',
                         emailQueue := queueEmailAttachment (emailQueue s) recipient (uniqueName, b)\<rparr>))
       st recipients"

definition emailStep ::
    "gen_env \<Rightarrow> gen_input \<Rightarrow> nat \<Rightarrow> row \<Rightarrow> string \<Rightarrow> buffer option \<Rightarrow> bool
       \<Rightarrow> gen_state \<Rightarrow> gen_state" where
  "emailStep env inp idx row pdfName pdfBuffer pdfValid st =
     (if emailColumn inp = [] then st
      else
        let recipients = uniqueRecipients (parseRecipients env (getRowValue row (emailColumn inp)))
        in if recipients = [] then st
           else if \<not> pdfValid then
             logAll idx [Warn (''PDF nao gerado; email nao enviado para '' @ join '', '' recipients)] st
           else
             (case preparePdfAttachment pdfName pdfBuffer [(''row'', decimal (idx + 1))] of
                (attachment, lg) \<Rightarrow> queueForRecipients attachment (logAll idx lg st) recipients))"

text \<open>
  One pass of the loop body once the unique name is found. The result is the state
  reached and, when something threw, the text of the error.
\<close>

definition finishRow ::
    "gen_env \<Rightarrow> gen_input \<Rightarrow> nat \<Rightarrow> nat \<Rightarrow> row \<Rightarrow> string \<Rightarrow> gen_state
       \<Rightarrow> string option \<times> gen_state" where
  "finishRow env inp now idx row finalName st =
     (let st1 = st\<lparr>usedNames := set_add (usedNames st) finalName\<rparr>
      in case renderDoc env (templateBuffer inp) (rowData inp row) (placeholders inp) of
           Threw e \<Rightarrow> (Some e, st1)
         | Returned docBuffer \<Rightarrow>
             (let st2 = st1\<lparr>zipDocx := map_set (zipDocx st1) finalName docBuffer\<rparr>;
                  pdfName = replaceExtension ''.docx'' ''.pdf'' finalName
              in case docxBufferToPdf (conv env) docBuffer of
                   Threw e \<Rightarrow> (Some e, st2)
                 | Returned (pdfBuffer, lg) \<Rightarrow>
                     (let st3 = logAll idx lg st2;
                          pdfValid = isPdfBuffer pdfBuffer;
                          st4 = (case pdfBuffer of
                                   None \<Rightarrow> st3
                                 | Some pdf \<Rightarrow>
                                     if pdfValid then
                                       logAll idx
                                         (case savePdf env pdfName pdf of
                                            Threw e \<Rightarrow> [Err (''Falha ao salvar PDF em disco: '' @ e)]
                                          | Returned u \<Rightarrow> [])
                                         (st3\<lparr>zipPdf := map_set (zipPdf st3) pdfName pdf\<rparr>)
                                     else
                                       logAll idx
                                         [Warn (''PDF invalido gerado na linha '' @ decimal (idx + 1)
                                                  @ ''.'')] st3);
                          st5 = emailStep env inp idx row pdfName pdfBuffer pdfValid st4
                      in (None,
                          st5\<lparr>the_job := touchJob now ((the_job st5)
                                \<lparr>current := idx + 1,
                                 message := ''Processando linha '' @ decimal (idx + 1) @ '' de ''
                                              @ decimal (length (rows inp)) @ ''.''\<rparr>)\<rparr>))))"

definition processRow ::
    "gen_env \<Rightarrow> gen_input \<Rightarrow> nat \<Rightarrow> nat \<Rightarrow> row \<Rightarrow> gen_state
       \<Rightarrow> (string option \<times> gen_state) option" where
  "processRow env inp now idx row st =
     (let filename = rowFilename inp idx row
      in case uniqueDocxName (usedNames st) filename 2 filename of
           None \<Rightarrow> None
         | Some finalName \<Rightarrow> Some (finishRow env inp now idx row finalName st))"

fun processRows ::
    "gen_env \<Rightarrow> gen_input \<Rightarrow> nat \<Rightarrow> nat \<Rightarrow> row list \<Rightarrow> gen_state
       \<Rightarrow> (string option \<times> gen_state) option" where
  "processRows env inp now idx [] st = Some (None, st)"
| "processRows env inp now idx (row # rest) st =
     (case processRow env inp now idx row st of
        None \<Rightarrow> None
      | Some (Some e, st') \<Rightarrow> Some (Some e, st')
      | Some (None, st') \<Rightarrow> processRows env inp now (idx + 1) rest st')"

text \<open>
  The whole job. \<open>dispatched\<close> is the call of a transport the job makes after it is done,
  without waiting for it: whether the Outlook transport was chosen, and the queue.
  Before each row the runner awaits \<open>waitIfPaused\<close>. A pause holds the row back until the
  job is resumed and touches only the pause fields, the status and \<open>updatedAt\<close> of the job,
  none of which the rows read; the model is the run of a job that is not held paused.
\<close>

record gen_outcome =
  final_job :: job
  final_state :: gen_state
  dispatched :: "(bool \<times> email_item list) option"

definition failJob :: "nat \<Rightarrow> string \<Rightarrow> gen_state \<Rightarrow> gen_outcome" where
  "failJob now e st =
     \<lparr>final_job = touchJob now ((the_job st)\<lparr>status := Error, error := orElse e ''Erro ao gerar''\<rparr>),
      final_state = st, dispatched = None\<rparr>"

definition finishJob :: "gen_env \<Rightarrow> gen_input \<Rightarrow> nat \<Rightarrow> gen_state \<Rightarrow> gen_outcome" where
  "finishJob env inp now st0 =
     (let st = st0\<lparr>the_job := touchJob now ((the_job st0)\<lparr>message := ''Finalizando arquivos.''\<rparr>)\<rparr>
      in case generateZip env (zipDocx st) of
           Threw e \<Rightarrow> failJob now e st
         | Returned zipDocxBuffer \<Rightarrow>
             (let pdfHasFiles = (zipPdf st \<noteq> [])
              in case (if pdfHasFiles then map_outcome Some (generateZip env (zipPdf st))
                       else Returned None) of
                   Threw e \<Rightarrow> failJob now e st
                 | Returned zipPdfBuffer \<Rightarrow>
                     (let emailsToSend = map snd (emailQueue st)
                      in \<lparr>final_job = touchJob now ((the_job st)
                             \<lparr>result := Some (GenerateResult zipDocxBuffer zipPdfBuffer pdfHasFiles),
                              status := Done, message := ''Concluido.''\<rparr>),
                          final_state = st,
                          dispatched =
                            (if emailsToSend \<noteq> []
                             then Some (toLowerCase (orElse (emailMode inp) ''smtp'') = ''outlook'',
                                        emailsToSend)
                             else None)\<rparr>)))"

definition runGenerateJob :: "gen_env \<Rightarrow> nat \<Rightarrow> job \<Rightarrow> gen_input \<Rightarrow> gen_outcome option" where
  "runGenerateJob env now j inp =
     (let j1 = touchJob now (j\<lparr>job_total := length (rows inp), current := 0,
                               message := ''Gerando documentos.''\<rparr>);
          st0 = \<lparr>zipDocx = [], zipPdf = [], usedNames = [], emailQueue = [],
                 usedNamesByRecipient = [], console = [], the_job = j1\<rparr>
      in case processRows env inp now 0 (rows inp) st0 of
           None \<Rightarrow> None
         | Some (Some e, st) \<Rightarrow> Some (failJob now e st)
         | Some (None, st) \<Rightarrow> Some (finishJob env inp now st))"

section \<open>Example data\<close>

text \<open>
  A mapping of three entries of one group, with the given prefixes, and a row holding
  the given texts in the three columns the mapping reads.
\<close>

definition example_mapping :: "string \<Rightarrow> string \<Rightarrow> string \<Rightarrow> mapping_entry list" where
  "example_mapping p1 p2 p3 =
     [\<lparr>m_placeholder = Some ''{{a}}'', m_column = ''ColA'', m_prefix = p1, m_group = ''socios''\<rparr>,
      \<lparr>m_placeholder = Some ''{{b}}'', m_column = ''ColB'', m_prefix = p2, m_group = ''socios''\<rparr>,
      \<lparr>m_placeholder = Some ''{{c}}'', m_column = ''ColC'', m_prefix = p3, m_group = ''socios''\<rparr>]"

definition example_row :: "string \<Rightarrow> string \<Rightarrow> string \<Rightarrow> row" where
  "example_row a b c = [(''ColA'', CellText a), (''ColB'', CellText b), (''ColC'', CellText c)]"

text \<open>
  An archive that is nothing but its document text, and a document in which the editor
  has split one placeholder over three runs and left spaces inside the braces.
\<close>

definition plain_zip :: zip_lib where
  "plain_zip = \<lparr>readXml = (\<lambda>b. Some b), writeXml = (\<lambda>b xml. xml)\<rparr>"

definition example_template :: buffer where
  "example_template = ''<w:t>{{ nome }}</w:t><w:t>{{</w:t><w:t>cpf}} {{{nome}}} {{ cpf }}</w:t>''"

text \<open>
  Converters on a Linux host whose LibreOffice and browser return the given buffers.
\<close>

definition example_converters :: "buffer \<Rightarrow> buffer \<Rightarrow> converters" where
  "example_converters libre puppeteer =
     \<lparr>platform = ''linux'', mkdtemp = Returned ''/tmp/docx2pdf-1'', removeTemp = Returned (),
      runMsOffice = (\<lambda>b. Returned None), convertAsync = (\<lambda>b. Returned (Some libre)),
      printPdf = (\<lambda>b. Returned puppeteer)\<rparr>"

text \<open>
  A queue of two recipients, no SMTP configuration anywhere, and a Linux host on which
  the Outlook script would fail if it were run.
\<close>

definition example_queue :: "email_item list" where
  "example_queue =
     [\<lparr>e_to = ''ana@example.org'',
        e_attachments = [(''a.pdf'', ''%PDF-1.7 a''), (''b.pdf'', ''%PDF-1.7 b'')],
        e_filename = [], e_buffer = None\<rparr>,
      \<lparr>e_to = ''bob@example.org'', e_attachments = [(''c.pdf'', ''%PDF-1.7 c'')],
        e_filename = [], e_buffer = None\<rparr>]"

definition example_smtp_env :: smtp_env where
  "example_smtp_env =
     \<lparr>SMTP_HOST = [], SMTP_PORT = [], SMTP_USER = [], SMTP_PASS = [], SMTP_FROM = []\<rparr>"

definition example_smtp_config :: smtp_config where
  "example_smtp_config =
     \<lparr>cfg_host = [], cfg_port = [], cfg_user = [], cfg_pass = [], cfg_from = [],
      cfg_secure = Some False\<rparr>"

definition example_outlook_env :: outlook_env where
  "example_outlook_env =
     \<lparr>o_platform = ''linux'', makeTemp = Threw ''EACCES'',
      runOutlook = (\<lambda>payload sender. Threw ''powershell: not found'')\<rparr>"

text \<open>
  Collaborators of the runner for the examples: a renderer that names the person, a
  recipient pattern that takes a non-empty cell as one address, an archive writer that
  lists the names of its entries; a dataset of three rows that expand to the same file
  name; and a Windows host whose temporary directory cannot be created.
\<close>

definition example_gen_env :: "converters \<Rightarrow> gen_env" where
  "example_gen_env cv =
     \<lparr>conv = cv,
      renderDoc = (\<lambda>t d p. Returned (''DOCX for '' @ (case d ''nome'' of Some v \<Rightarrow> v | None \<Rightarrow> []))),
      parseRecipients = (\<lambda>c. case c of CellText s \<Rightarrow> (if s = [] then [] else [s]) | _ \<Rightarrow> []),
      savePdf = (\<lambda>n b. Returned ()),
      generateZip = (\<lambda>entries. Returned (''ZIP of '' @ join '', '' (map fst entries)))\<rparr>"

definition example_input :: gen_input where
  "example_input =
     \<lparr>rows = [[(''Nome'', CellText ''Ana''), (''Email'', CellText ''ana@example.org'')],
              [(''Nome'', CellText ''Ana''), (''Email'', CellText [])],
              [(''Nome'', CellText ''Ana''), (''Email'', CellText ''ANA@example.org'')]],
      templateBuffer = example_template,
      mapping = [\<lparr>m_placeholder = Some ''{{nome}}'', m_column = ''nome'', m_prefix = [], m_group = []\<rparr>],
      placeholders = [''nome'', ''cpf''],
      nameTemplate = ''doc_{primary}'',
      primaryPlaceholder = [],
      emailColumn = ''email'',
      emailSubject = [], emailMessage = [], emailMode = [],
      smtpConfig = example_smtp_config,
      outlookFrom = []\<rparr>"

definition failing_word_converters :: converters where
  "failing_word_converters =
     \<lparr>platform = ''win32'', mkdtemp = Threw ''ENOSPC: no space left on device'',
      removeTemp = Returned (), runMsOffice = (\<lambda>b. Returned None),
      convertAsync = (\<lambda>b. Returned None), printPdf = (\<lambda>b. Returned ''%PDF-1.7'')\<rparr>"


section \<open>Verification: row resolution\<close>

text \<open>
  Notions used to state the properties of the resolver: the set seen for a group, the
  lower-cased trimmed value of an item, an item that takes part in the deduplication of
  its group (it has a group and a value), an item whose value repeats that of an earlier
  such item of its group, and an item that is present in a given group.
\<close>

definition seenSet :: "(string \<rightharpoonup> string set) \<Rightarrow> string \<Rightarrow> string set" where
  "seenSet seen g = (case seen g of None \<Rightarrow> {} | Some s \<Rightarrow> s)"

definition normalized :: "item \<Rightarrow> string" where
  "normalized it = toLowerCase (i_trimmed it)"




lemma markDuplicates_length [simp]: "length (markDuplicates seen its) = length its"
  by (induction its arbitrary: seen) (simp_all add: Let_def)








lemma distinct_foldl_set_add: "distinct acc \<Longrightarrow> distinct (foldl set_add acc xs)"
  by (induction xs arbitrary: acc) (auto simp: set_add_def)















lemma makeItems_length [simp]: "length (makeItems mp row) = length mp"
  by (simp add: makeItems_def)

lemma makeItems_nth: "j < length mp \<Longrightarrow> makeItems mp row ! j = makeItem row j (mp ! j)"
  by (simp add: makeItems_def nth_enumerate_eq)

lemma seenSet_empty [simp]: "seenSet Map.empty g = {}"
  by (simp add: seenSet_def)







lemma resolvedEntries_length [simp]: "length (resolvedEntries mp row) = length mp"
  by (simp add: resolvedEntries_def Let_def)











lemma find_Some_in_set: "find P xs = Some x \<Longrightarrow> x \<in> set xs \<and> P x"
  by (induction xs) (auto split: if_splits)

lemma map_of_fst_mem: "k \<in> fst ` set ps \<Longrightarrow> \<exists>v. map_of ps k = Some v \<and> (k, v) \<in> set ps"
  by (induction ps) auto

lemma getRowValue_exact:
  "columnName \<noteq> [] \<Longrightarrow> map_of row columnName = Some v \<Longrightarrow> getRowValue row columnName = v"
  by (simp add: getRowValue_def)

lemma map_of_first:
  "i < length ps \<Longrightarrow> \<forall>j<i. fst (ps ! j) \<noteq> fst (ps ! i) \<Longrightarrow>
   map_of ps (fst (ps ! i)) = Some (snd (ps ! i))"
proof (induction ps arbitrary: i)
  case Nil
  then show ?case by simp
next
  case (Cons p ps)
  show ?case
  proof (cases i)
    case 0
    then show ?thesis by (cases p) simp
  next
    case (Suc k)
    from Cons.prems(2) Suc have "fst ((p # ps) ! 0) \<noteq> fst ((p # ps) ! Suc k)" by blast
    then have ne: "fst p \<noteq> fst (ps ! k)" by simp
    from Cons.prems(1) Suc have k: "k < length ps" by simp
    have "\<forall>j<k. fst (ps ! j) \<noteq> fst (ps ! k)"
    proof (intro allI impI)
      fix j assume "j < k"
      then have "Suc j < i" using Suc by simp
      with Cons.prems(2) have "fst ((p # ps) ! Suc j) \<noteq> fst ((p # ps) ! i)" by blast
      then show "fst (ps ! j) \<noteq> fst (ps ! k)" using Suc by simp
    qed
    from Cons.IH [OF k this] ne show ?thesis unfolding Suc by (cases p) auto
  qed
qed

lemma fold_empty: "toLowerCase (trim []) = []"
  by (simp add: trim_def toLowerCase_def)

lemma getRowValue_first:
  assumes "columnName \<noteq> []" and "map_of row columnName = None"
    and "toLowerCase (trim columnName) \<noteq> []"
    and "i < length row"
    and "toLowerCase (trim (fst (row ! i))) = toLowerCase (trim columnName)"
    and "\<forall>i'<i. toLowerCase (trim (fst (row ! i'))) \<noteq> toLowerCase (trim columnName)"
  shows "getRowValue row columnName = snd (row ! i)"
proof -
  let ?P = "\<lambda>k. toLowerCase (trim k) = toLowerCase (trim columnName)"
  have "\<exists>n<length (map fst row). ?P (map fst row ! n) \<and> fst (row ! i) = map fst row ! n
          \<and> (\<forall>m<n. \<not> ?P (map fst row ! m))"
  proof (intro exI [of _ i] conjI allI impI)
    show "i < length (map fst row)" using assms(4) by simp
    show "?P (map fst row ! i)" using assms(4,5) by simp
    show "fst (row ! i) = map fst row ! i" using assms(4) by simp
    fix m assume "m < i"
    with assms(4,6) show "\<not> ?P (map fst row ! m)" by simp
  qed
  then have f: "find ?P (map fst row) = Some (fst (row ! i))"
    by (simp only: find_Some_iff)
  from assms(3,5) have ne: "fst (row ! i) \<noteq> []" using fold_empty by metis
  have "\<forall>j<i. fst (row ! j) \<noteq> fst (row ! i)"
  proof (intro allI impI)
    fix j assume "j < i"
    with assms(6) have "toLowerCase (trim (fst (row ! j))) \<noteq> toLowerCase (trim columnName)"
      by blast
    with assms(5) show "fst (row ! j) \<noteq> fst (row ! i)" by metis
  qed
  with assms(4) have m: "map_of row (fst (row ! i)) = Some (snd (row ! i))"
    by (rule map_of_first)
  from assms(1,2,3) f ne m show ?thesis
    by (simp add: getRowValue_def Let_def)
qed

lemma getRowValue_blank:
  "columnName = [] \<or> (map_of row columnName = None \<and> toLowerCase (trim columnName) = []) \<Longrightarrow>
   getRowValue row columnName = CellText []"
  by (auto simp: getRowValue_def Let_def)

lemma getRowValue_miss:
  assumes "\<forall>k \<in> fst ` set row. toLowerCase (trim k) \<noteq> toLowerCase (trim columnName)"
  shows "getRowValue row columnName = CellText []"
proof -
  have "map_of row columnName = None"
  proof (cases "map_of row columnName")
    case (Some v)
    then have "(columnName, v) \<in> set row" by (rule map_of_SomeD)
    then have "columnName \<in> fst ` set row" by force
    with assms show ?thesis by blast
  qed simp
  moreover have "find (\<lambda>k. toLowerCase (trim k) = toLowerCase (trim columnName)) (map fst row) = None"
    using assms by (auto simp: find_None_iff)
  ultimately show ?thesis by (simp add: getRowValue_def Let_def)
qed

text \<open>
  Claim C8, as amended. For every mapping entry the resolver fetches the raw cell by
  column name: nothing (the empty string) for an empty column name; the cell under the
  key that is exactly the column name when the row has that key; otherwise the cell of
  the first key of the row that equals the column name after trimming and lower-casing
  both, provided the column name is not white space only; and the empty string when there
  is no such key. It sanitizes the cell only by turning it into a string and deleting
  every double quote of a string cell (a string without double quotes is kept as it is,
  control characters, line breaks and surrounding white space included, at any length);
  the trimmed copy is kept beside the value, and the entry has a value when the trimmed
  copy is non-empty.
\<close>

theorem cell_value_lookup_and_sanitization:
  assumes "j < length mp"
  shows "i_value (makeItems mp row ! j) = sanitizeCellValue (getRowValue row (m_column (mp ! j)))
       \<and> i_trimmed (makeItems mp row ! j) = trim (i_value (makeItems mp row ! j))
       \<and> i_hasValue (makeItems mp row ! j) = (trim (i_value (makeItems mp row ! j)) \<noteq> [])
       \<and> (\<forall>s. getRowValue row (m_column (mp ! j)) = CellText s \<longrightarrow>
              i_value (makeItems mp row ! j) = filter (\<lambda>c. c \<noteq> CHR 0x22) s)
       \<and> (\<forall>s. getRowValue row (m_column (mp ! j)) = CellText s \<and> CHR 0x22 \<notin> set s \<longrightarrow>
              i_value (makeItems mp row ! j) = s)
       \<and> (\<forall>b s. getRowValue row (m_column (mp ! j)) = CellOther b s \<longrightarrow>
              i_value (makeItems mp row ! j) = s)
       \<and> (getRowValue row (m_column (mp ! j)) = CellNull \<longrightarrow> i_value (makeItems mp row ! j) = [])
       \<and> (m_column (mp ! j) = [] \<longrightarrow> getRowValue row (m_column (mp ! j)) = CellText [])
       \<and> (\<forall>v. m_column (mp ! j) \<noteq> [] \<and> map_of row (m_column (mp ! j)) = Some v \<longrightarrow>
              getRowValue row (m_column (mp ! j)) = v)
       \<and> (map_of row (m_column (mp ! j)) = None \<and> toLowerCase (trim (m_column (mp ! j))) = [] \<longrightarrow>
              getRowValue row (m_column (mp ! j)) = CellText [])
       \<and> (\<forall>i. m_column (mp ! j) \<noteq> [] \<and> map_of row (m_column (mp ! j)) = None
              \<and> toLowerCase (trim (m_column (mp ! j))) \<noteq> []
              \<and> i < length row
              \<and> toLowerCase (trim (fst (row ! i))) = toLowerCase (trim (m_column (mp ! j)))
              \<and> (\<forall>i'<i. toLowerCase (trim (fst (row ! i'))) \<noteq> toLowerCase (trim (m_column (mp ! j))))
              \<longrightarrow> getRowValue row (m_column (mp ! j)) = snd (row ! i))
       \<and> ((\<forall>k \<in> fst ` set row. toLowerCase (trim k) \<noteq> toLowerCase (trim (m_column (mp ! j)))) \<longrightarrow>
              getRowValue row (m_column (mp ! j)) = CellText [])"
proof -
  have it: "makeItems mp row ! j = makeItem row j (mp ! j)" using assms by (rule makeItems_nth)
  have 1: "i_value (makeItems mp row ! j) = sanitizeCellValue (getRowValue row (m_column (mp ! j)))"
    and 2: "i_trimmed (makeItems mp row ! j) = trim (i_value (makeItems mp row ! j))"
    and 3: "i_hasValue (makeItems mp row ! j) = (trim (i_value (makeItems mp row ! j)) \<noteq> [])"
    by (simp_all add: it makeItem_def Let_def)
  have 4: "\<forall>s. getRowValue row (m_column (mp ! j)) = CellText s \<longrightarrow>
              i_value (makeItems mp row ! j) = filter (\<lambda>c. c \<noteq> CHR 0x22) s"
    by (simp add: 1)
  have 5: "\<forall>s. getRowValue row (m_column (mp ! j)) = CellText s \<and> CHR 0x22 \<notin> set s \<longrightarrow>
              i_value (makeItems mp row ! j) = s"
    by (auto simp: 1 filter_id_conv)
  have 6: "\<forall>b s. getRowValue row (m_column (mp ! j)) = CellOther b s \<longrightarrow>
              i_value (makeItems mp row ! j) = s"
    by (simp add: 1)
  have n6: "getRowValue row (m_column (mp ! j)) = CellNull \<longrightarrow> i_value (makeItems mp row ! j) = []"
    by (simp add: 1)
  have b6: "m_column (mp ! j) = [] \<longrightarrow> getRowValue row (m_column (mp ! j)) = CellText []"
    using getRowValue_blank [of "m_column (mp ! j)" row] by blast
  have 7: "\<forall>v. m_column (mp ! j) \<noteq> [] \<and> map_of row (m_column (mp ! j)) = Some v \<longrightarrow>
              getRowValue row (m_column (mp ! j)) = v"
    by (simp add: getRowValue_exact)
  have b7: "map_of row (m_column (mp ! j)) = None \<and> toLowerCase (trim (m_column (mp ! j))) = [] \<longrightarrow>
              getRowValue row (m_column (mp ! j)) = CellText []"
    using getRowValue_blank [of "m_column (mp ! j)" row] by blast
  have 8: "\<forall>i. m_column (mp ! j) \<noteq> [] \<and> map_of row (m_column (mp ! j)) = None
              \<and> toLowerCase (trim (m_column (mp ! j))) \<noteq> []
              \<and> i < length row
              \<and> toLowerCase (trim (fst (row ! i))) = toLowerCase (trim (m_column (mp ! j)))
              \<and> (\<forall>i'<i. toLowerCase (trim (fst (row ! i'))) \<noteq> toLowerCase (trim (m_column (mp ! j))))
              \<longrightarrow> getRowValue row (m_column (mp ! j)) = snd (row ! i)"
    using getRowValue_first [of "m_column (mp ! j)" row] by blast
  have 9: "(\<forall>k \<in> fst ` set row. toLowerCase (trim k) \<noteq> toLowerCase (trim (m_column (mp ! j)))) \<longrightarrow>
              getRowValue row (m_column (mp ! j)) = CellText []"
    using getRowValue_miss [of row "m_column (mp ! j)"] by blast
  from 1 2 3 4 5 6 n6 b6 7 b7 8 9 show ?thesis by (intro conjI)
qed

theorem cell_value_lookup_and_sanitization_witness:
  "0 < length (example_mapping [] [] [])
   \<and> map_of [(''Outra'', CellText ''no''), (''cola '', CellText (CHR 0x22 # '' x y '' @ [CHR 0x22])),
              ('' COLA'', CellText ''second'')] (m_column (example_mapping [] [] [] ! 0)) = None
   \<and> getRowValue [(''Outra'', CellText ''no''), (''cola '', CellText (CHR 0x22 # '' x y '' @ [CHR 0x22])),
              ('' COLA'', CellText ''second'')]
        (m_column (example_mapping [] [] [] ! 0)) = CellText (CHR 0x22 # '' x y '' @ [CHR 0x22])
   \<and> i_value (makeItems (example_mapping [] [] [])
        [(''Outra'', CellText ''no''), (''cola '', CellText (CHR 0x22 # '' x y '' @ [CHR 0x22])),
         ('' COLA'', CellText ''second'')] ! 0) = '' x y ''
   \<and> i_trimmed (makeItems (example_mapping [] [] [])
        [(''Outra'', CellText ''no''), (''cola '', CellText (CHR 0x22 # '' x y '' @ [CHR 0x22])),
         ('' COLA'', CellText ''second'')] ! 0) = ''x y''
   \<and> i_hasValue (makeItems (example_mapping [] [] [])
        [(''Outra'', CellText ''no''), (''cola '', CellText (CHR 0x22 # '' x y '' @ [CHR 0x22])),
         ('' COLA'', CellText ''second'')] ! 0)"
proof -
  let ?mp = "example_mapping [] [] []"
  let ?row = "[(''Outra'', CellText ''no''), (''cola '', CellText (CHR 0x22 # '' x y '' @ [CHR 0x22])),
               ('' COLA'', CellText ''second'')]"
  let ?col = "m_column (?mp ! 0)"
  have h: "0 < length ?mp" by code_simp
  have c1: "?col \<noteq> []" by code_simp
  have c2: "map_of ?row ?col = None" by code_simp
  have c3: "toLowerCase (trim ?col) \<noteq> []" by code_simp
  have c4: "(1::nat) < length ?row" by simp
  have c5: "toLowerCase (trim (fst (?row ! 1))) = toLowerCase (trim ?col)" by code_simp
  have c6: "\<forall>i'<1. toLowerCase (trim (fst (?row ! i'))) \<noteq> toLowerCase (trim ?col)"
  proof (intro allI impI)
    fix i' :: nat assume "i' < 1"
    then have "i' = 0" by simp
    then show "toLowerCase (trim (fst (?row ! i'))) \<noteq> toLowerCase (trim ?col)"
      by (simp only:) code_simp
  qed
  from cell_value_lookup_and_sanitization [OF h, of ?row]
  have first: "\<forall>i. ?col \<noteq> [] \<and> map_of ?row ?col = None
              \<and> toLowerCase (trim ?col) \<noteq> []
              \<and> i < length ?row
              \<and> toLowerCase (trim (fst (?row ! i))) = toLowerCase (trim ?col)
              \<and> (\<forall>i'<i. toLowerCase (trim (fst (?row ! i'))) \<noteq> toLowerCase (trim ?col))
              \<longrightarrow> getRowValue ?row ?col = snd (?row ! i)"
    and strip: "\<forall>s. getRowValue ?row ?col = CellText s \<longrightarrow>
              i_value (makeItems ?mp ?row ! 0) = filter (\<lambda>c. c \<noteq> CHR 0x22) s"
    and tr: "i_trimmed (makeItems ?mp ?row ! 0) = trim (i_value (makeItems ?mp ?row ! 0))"
    and hv: "i_hasValue (makeItems ?mp ?row ! 0) = (trim (i_value (makeItems ?mp ?row ! 0)) \<noteq> [])"
    by blast+
  from first c1 c2 c3 c4 c5 c6 have "getRowValue ?row ?col = snd (?row ! 1)" by blast
  then have g: "getRowValue ?row ?col = CellText (CHR 0x22 # '' x y '' @ [CHR 0x22])" by simp
  with strip have "i_value (makeItems ?mp ?row ! 0)
      = filter (\<lambda>c. c \<noteq> CHR 0x22) (CHR 0x22 # '' x y '' @ [CHR 0x22])" by blast
  moreover have "filter (\<lambda>c. c \<noteq> CHR 0x22) (CHR 0x22 # '' x y '' @ [CHR 0x22]) = '' x y ''"
    by simp
  moreover have "trim '' x y '' = ''x y''" by code_simp
  ultimately have "i_value (makeItems ?mp ?row ! 0) = '' x y ''"
    and "i_trimmed (makeItems ?mp ?row ! 0) = ''x y''"
    and "i_hasValue (makeItems ?mp ?row ! 0)"
    using tr hv by simp_all
  with h c2 g show ?thesis by blast
qed

theorem cell_value_sanitization_counterexample:
  "i_value (makeItems (example_mapping [] [] [])
      (example_row ([CHR 0x07] @ '' a'' @ [CHR 0x0D, CHR 0x0A] @ ''b '') [] []) ! 0)
     = [CHR 0x07] @ '' a'' @ [CHR 0x0D, CHR 0x0A] @ ''b ''
   \<and> CHR 0x07 \<in> set (i_value (makeItems (example_mapping [] [] [])
      (example_row ([CHR 0x07] @ '' a'' @ [CHR 0x0D, CHR 0x0A] @ ''b '') [] []) ! 0))
   \<and> trim ([CHR 0x07] @ '' a'' @ [CHR 0x0D, CHR 0x0A] @ ''b '')
        \<noteq> [CHR 0x07] @ '' a'' @ [CHR 0x0D, CHR 0x0A] @ ''b ''
   \<and> snd (resolvedEntries (example_mapping [] [] [])
      (example_row ([CHR 0x07] @ '' a'' @ [CHR 0x0D, CHR 0x0A] @ ''b '') [] []) ! 0)
     = [CHR 0x07] @ '' a'' @ [CHR 0x0D, CHR 0x0A] @ ''b ''"
  by code_simp

section \<open>Verification: placeholder extraction\<close>

text \<open>The place of the first occurrence of an element in a list.\<close>

definition first_index :: "'a list \<Rightarrow> 'a \<Rightarrow> nat" where
  "first_index xs x = length (takeWhile (\<lambda>y. y \<noteq> x) xs)"

lemma first_index_less: "x \<in> set xs \<Longrightarrow> first_index xs x < length xs"
  unfolding first_index_def by (induction xs) auto

lemma first_index_append_mem: "x \<in> set xs \<Longrightarrow> first_index (xs @ ys) x = first_index xs x"
  unfolding first_index_def by (induction xs) auto

lemma first_index_snoc_new: "x \<notin> set xs \<Longrightarrow> first_index (xs @ [x]) x = length xs"
  unfolding first_index_def by (induction xs) auto

lemma foldl_set_add_snoc: "foldl set_add [] (xs @ [x]) = set_add (foldl set_add [] xs) x"
  by simp

lemma insertion_order:
  "distinct (foldl set_add [] xs)
   \<and> set (foldl set_add [] xs) = set xs
   \<and> sorted_wrt (<) (map (first_index xs) (foldl set_add [] xs))"
proof (induction xs rule: rev_induct)
  case Nil
  then show ?case by simp
next
  case (snoc x xs)
  let ?r = "foldl set_add [] xs"
  from snoc.IH have d: "distinct ?r" and s: "set ?r = set xs"
    and o: "sorted_wrt (<) (map (first_index xs) ?r)" by simp_all
  have same: "map (first_index (xs @ [x])) ?r = map (first_index xs) ?r"
    using s by (simp add: first_index_append_mem)
  show ?case
  proof (cases "x \<in> set xs")
    case True
    with s have r: "foldl set_add [] (xs @ [x]) = ?r" by (simp add: set_add_def)
    from d s o True show ?thesis unfolding r same by auto
  next
    case False
    with s have r: "foldl set_add [] (xs @ [x]) = ?r @ [x]" by (simp add: set_add_def)
    have "\<forall>y \<in> set ?r. first_index xs y < first_index (xs @ [x]) x"
      using s False by (simp add: first_index_snoc_new first_index_less)
    then have "\<forall>n \<in> set (map (first_index xs) ?r). n < first_index (xs @ [x]) x"
      by simp
    with d s o False show ?thesis
      unfolding r map_append same by (simp add: sorted_wrt_append)
  qed
qed

lemma dropWhile_rev_keep:
  assumes "b \<noteq> []" and "\<not> P (hd b)"
  shows "dropWhile P (rev (dropWhile P (rev b))) = rev (dropWhile P (rev b))"
proof -
  from assms(1) have b: "rev b = rev (tl b) @ [hd b]" by (cases b) simp_all
  have "\<exists>ys. dropWhile P (rev b) = ys @ [hd b]"
    unfolding b using assms(2) by (auto simp: dropWhile_append)
  then obtain ys where "dropWhile P (rev b) = ys @ [hd b]" ..
  then have "rev (dropWhile P (rev b)) = hd b # rev ys" by simp
  with assms(2) show ?thesis by simp
qed

lemma trim_capture: "body \<noteq> [] \<Longrightarrow> trim (capture body) = trim body"
proof -
  assume ne: "body \<noteq> []"
  let ?b = "dropWhile is_space body"
  show ?thesis
  proof (cases "?b = []")
    case True
    then have all: "\<forall>c \<in> set body. is_space c" by (simp add: dropWhile_eq_Nil_conv)
    with ne have sp: "is_space (last body)" by simp
    have "trim body = []" unfolding trim_def True by simp
    moreover have "capture body = [last body]" unfolding capture_def True by simp
    moreover from sp have "trim [last body] = []" by (simp add: trim_def)
    ultimately show ?thesis by simp
  next
    case False
    then have h: "\<not> is_space (hd ?b)" by (rule hd_dropWhile)
    let ?t = "rev (dropWhile is_space (rev ?b))"
    from False have c: "capture body = ?t" by (simp only: capture_def Let_def if_False)
    have k1: "dropWhile is_space ?t = ?t"
      using False h by (rule dropWhile_rev_keep)
    have k2: "dropWhile is_space (rev ?t) = rev ?t"
      by (simp only: rev_rev_ident dropWhile_idem)
    have "trim (capture body) = rev (dropWhile is_space (rev (dropWhile is_space ?t)))"
      by (simp only: trim_def c)
    also have "\<dots> = ?t" by (simp only: k1 rev_rev_ident dropWhile_idem)
    also have "\<dots> = trim body" by (simp only: trim_def)
    finally show ?thesis .
  qed
qed

lemma matchPlaceholder_Some:
  assumes "matchPlaceholder s = Some (cap, rest)"
  shows "\<exists>body. s = ''{{'' @ body @ ''}}'' @ rest \<and> body \<noteq> [] \<and> CHR ''}'' \<notin> set body
           \<and> cap = capture body"
proof -
  let ?d = "drop 2 s"
  let ?body = "takeWhile (\<lambda>x. x \<noteq> CHR ''}'') ?d"
  let ?r = "dropWhile (\<lambda>x. x \<noteq> CHR ''}'') ?d"
  from assms have st: "starts_with ''{{'' s" and ne: "?body \<noteq> []"
    and cl: "starts_with ''}}'' ?r" and cap: "cap = capture ?body" and rest: "rest = drop 2 ?r"
    by (auto simp: matchPlaceholder_def Let_def split: if_splits)
  from st have "take 2 s = ''{{''" by (simp add: starts_with_def numeral_2_eq_2)
  then have s: "s = ''{{'' @ ?d" by (metis append_take_drop_id)
  from cl have "take 2 ?r = ''}}''" by (simp add: starts_with_def numeral_2_eq_2)
  then have r: "?r = ''}}'' @ rest" unfolding rest by (metis append_take_drop_id)
  have "?d = ?body @ ?r" by simp
  with s r have "s = ''{{'' @ ?body @ ''}}'' @ rest" by metis
  moreover have "CHR ''}'' \<notin> set ?body" by (auto dest: set_takeWhileD)
  ultimately show ?thesis using ne cap by blast
qed

text \<open>
  What counts as a placeholder of a text, said without the scanner. A placeholder
  stands after the prefix \<open>pre\<close> of the text when \<open>{{\<close>, a non-empty run of characters
  other than \<open>}\<close>, and \<open>}}\<close> follow that prefix, and the prefix is not \<open>opened\<close>: it does
  not hold a \<open>{{\<close> with no \<open>}\<close> after it (the second brace of that \<open>{{\<close> may be the
  first one of the occurrence itself, as in \<open>{{{a}}\<close>). In \<open>{{a{{b}}\<close> the pattern
  matches from the first \<open>{{\<close> and takes \<open>a{{b\<close>; the second \<open>{{\<close> stands after an opened
  prefix. The name of the placeholder is the run, trimmed.
\<close>

definition opened :: "string \<Rightarrow> bool" where
  "opened pre = (\<exists>a b. pre = a @ CHR ''{'' # b \<and> CHR ''}'' \<notin> set b \<and> (b = [] \<or> hd b = CHR ''{''))"

definition placeholder_at :: "string \<Rightarrow> string \<Rightarrow> string \<Rightarrow> bool" where
  "placeholder_at s pre name =
     (\<exists>body post. s = pre @ ''{{'' @ body @ ''}}'' @ post \<and> body \<noteq> [] \<and> CHR ''}'' \<notin> set body
        \<and> \<not> opened pre \<and> name = trim body)"

lemma openedI:
  "pre = a @ CHR ''{'' # b \<Longrightarrow> CHR ''}'' \<notin> set b \<Longrightarrow> b = [] \<or> hd b = CHR ''{'' \<Longrightarrow> opened pre"
  unfolding opened_def by blast

lemma opened_prepend: "opened p \<Longrightarrow> opened (x @ p)"
proof -
  assume "opened p"
  then obtain a b where "p = a @ CHR ''{'' # b" "CHR ''}'' \<notin> set b" "b = [] \<or> hd b = CHR ''{''"
    unfolding opened_def by blast
  then have "x @ p = (x @ a) @ CHR ''{'' # b \<and> CHR ''}'' \<notin> set b \<and> (b = [] \<or> hd b = CHR ''{'')"
    by simp
  then show ?thesis unfolding opened_def by blast
qed

lemma opened_after_close:
  assumes "opened (x @ ''}}'' @ p)"
  shows "opened p"
proof -
  from assms obtain a b where e: "x @ ''}}'' @ p = a @ CHR ''{'' # b"
    and nb: "CHR ''}'' \<notin> set b" and hb: "b = [] \<or> hd b = CHR ''{''"
    unfolding opened_def by blast
  from e have "(x @ ''}}'') @ p = (a @ ''{'') @ b" by simp
  then obtain u where "(x @ ''}}'' = (a @ ''{'') @ u \<and> u @ p = b) \<or> ((x @ ''}}'') @ u = a @ ''{'' \<and> p = u @ b)"
    unfolding append_eq_append_conv2 by blast
  then show ?thesis
  proof
    assume c: "x @ ''}}'' = (a @ ''{'') @ u \<and> u @ p = b"
    show ?thesis
    proof (cases "u = []")
      case True
      with c have "x @ ''}}'' = a @ ''{''" by simp
      then have "last (x @ ''}}'') = last (a @ ''{'')" by simp
      then show ?thesis by simp
    next
      case False
      from c have "last (x @ ''}}'') = last ((a @ ''{'') @ u)" by simp
      with False have "last u = CHR ''}''" by simp
      with False have "CHR ''}'' \<in> set u" using last_in_set by metis
      with c nb show ?thesis by auto
    qed
  next
    assume c: "(x @ ''}}'') @ u = a @ ''{'' \<and> p = u @ b"
    show ?thesis
    proof (cases "u = []")
      case True
      with c have "x @ ''}}'' = a @ ''{''" by simp
      then have "last (x @ ''}}'') = last (a @ ''{'')" by simp
      then show ?thesis by simp
    next
      case False
      then have u: "u = butlast u @ [last u]" by simp
      from c have "last ((x @ ''}}'') @ u) = last (a @ ''{'')" by simp
      with False have "last u = CHR ''{''" by simp
      with u have "u = butlast u @ ''{''" by simp
      with c have "p = butlast u @ CHR ''{'' # b" by (metis append.assoc append_Cons append_Nil)
      then show ?thesis using nb hb by (rule openedI)
    qed
  qed
qed

lemma takeWhile_until: "c \<notin> set xs \<Longrightarrow> takeWhile (\<lambda>x. x \<noteq> c) (xs @ c # ys) = xs"
  by (induction xs) auto

lemma dropWhile_until: "c \<notin> set xs \<Longrightarrow> dropWhile (\<lambda>x. x \<noteq> c) (xs @ c # ys) = c # ys"
  by (induction xs) auto

lemma matchPlaceholder_complete:
  assumes "s = ''{{'' @ body @ ''}}'' @ post" and "body \<noteq> []" and "CHR ''}'' \<notin> set body"
  shows "matchPlaceholder s = Some (capture body, post)"
proof -
  have d: "drop 2 s = body @ CHR ''}'' # CHR ''}'' # post" unfolding assms(1) by simp
  have t: "takeWhile (\<lambda>x. x \<noteq> CHR ''}'') (body @ CHR ''}'' # CHR ''}'' # post) = body"
    using assms(3) by (rule takeWhile_until)
  have r: "dropWhile (\<lambda>x. x \<noteq> CHR ''}'') (body @ CHR ''}'' # CHR ''}'' # post)
             = CHR ''}'' # CHR ''}'' # post"
    using assms(3) by (rule dropWhile_until)
  have st: "starts_with ''{{'' s" unfolding assms(1) by (simp add: starts_with_def)
  show ?thesis
    using st assms(2) by (simp add: matchPlaceholder_def Let_def d t r starts_with_def)
qed

lemma placeholder_at_skip:
  assumes "matchPlaceholder (c # cs) = None"
  shows "placeholder_at (c # cs) pre name = (\<exists>pre'. pre = c # pre' \<and> placeholder_at cs pre' name)"
proof
  assume "placeholder_at (c # cs) pre name"
  then obtain body post where e: "c # cs = pre @ ''{{'' @ body @ ''}}'' @ post"
    and b: "body \<noteq> []" "CHR ''}'' \<notin> set body" and o: "\<not> opened pre" and n: "name = trim body"
    unfolding placeholder_at_def by blast
  show "\<exists>pre'. pre = c # pre' \<and> placeholder_at cs pre' name"
  proof (cases pre)
    case Nil
    with e have "c # cs = ''{{'' @ body @ ''}}'' @ post" by simp
    from matchPlaceholder_complete [OF this b] assms show ?thesis by simp
  next
    case (Cons c' pre')
    with e have c: "c' = c" and cs: "cs = pre' @ ''{{'' @ body @ ''}}'' @ post" by simp_all
    have "\<not> opened pre'"
    proof
      assume "opened pre'"
      then have "opened ([c] @ pre')" by (rule opened_prepend)
      with o Cons c show False by simp
    qed
    with cs b n have "placeholder_at cs pre' name" unfolding placeholder_at_def by blast
    with Cons c show ?thesis by blast
  qed
next
  assume "\<exists>pre'. pre = c # pre' \<and> placeholder_at cs pre' name"
  then obtain pre' where p: "pre = c # pre'" and pl: "placeholder_at cs pre' name" by blast
  from pl obtain body post where cs: "cs = pre' @ ''{{'' @ body @ ''}}'' @ post"
    and b: "body \<noteq> []" "CHR ''}'' \<notin> set body" and o: "\<not> opened pre'" and n: "name = trim body"
    unfolding placeholder_at_def by blast
  have "\<not> opened (c # pre')"
  proof
    assume "opened (c # pre')"
    then obtain a b' where e: "c # pre' = a @ CHR ''{'' # b'"
      and nb: "CHR ''}'' \<notin> set b'" and hb: "b' = [] \<or> hd b' = CHR ''{''"
      unfolding opened_def by blast
    show False
    proof (cases a)
      case Nil
      with e have c: "c = CHR ''{''" and p': "pre' = b'" by simp_all
      from hb show False
      proof
        assume "b' = []"
        with cs c p' have "c # cs = ''{{'' @ (CHR ''{'' # body) @ ''}}'' @ post" by simp
        from matchPlaceholder_complete [OF this] b assms show False by simp
      next
        assume h: "hd b' = CHR ''{''"
        show False
        proof (cases b')
          case Nil
          with cs c p' have "c # cs = ''{{'' @ (CHR ''{'' # body) @ ''}}'' @ post" by simp
          from matchPlaceholder_complete [OF this] b assms show False by simp
        next
          case (Cons x b2)
          with h have "x = CHR ''{''" by simp
          with Cons cs c p' have "c # cs = ''{{'' @ (b2 @ ''{{'' @ body) @ ''}}'' @ post" by simp
          moreover have "b2 @ ''{{'' @ body \<noteq> []" by simp
          moreover have "CHR ''}'' \<notin> set (b2 @ ''{{'' @ body)" using nb Cons b by simp
          ultimately have "matchPlaceholder (c # cs) = Some (capture (b2 @ ''{{'' @ body), post)"
            by (rule matchPlaceholder_complete)
          with assms show False by simp
        qed
      qed
    next
      case (Cons a0 a')
      with e have "pre' = a' @ CHR ''{'' # b'" by simp
      then have "opened pre'" using nb hb by (rule openedI)
      with o show False by simp
    qed
  qed
  moreover from cs have "c # cs = (c # pre') @ ''{{'' @ body @ ''}}'' @ post" by simp
  ultimately show "placeholder_at (c # cs) pre name"
    unfolding placeholder_at_def p using b n by blast
qed


lemma not_opened_Nil: "\<not> opened []"
  by (simp add: opened_def)

lemma split_at_close:
  assumes "CHR ''}'' \<in> set p"
  shows "\<exists>t p3. p = t @ CHR ''}'' # p3 \<and> CHR ''}'' \<notin> set t"
proof -
  from assms obtain t p3 where "p = t @ CHR ''}'' # p3" "CHR ''}'' \<notin> set t"
    using split_list_first [of "CHR ''}''" p] by blast
  then show ?thesis by blast
qed

lemma until_unique:
  assumes "t @ c # x = t' @ c # x'" and "c \<notin> set t" and "c \<notin> set t'"
  shows "t = t' \<and> x = x'"
proof -
  have "takeWhile (\<lambda>y. y \<noteq> c) (t @ c # x) = t" using assms(2) by (rule takeWhile_until)
  moreover have "takeWhile (\<lambda>y. y \<noteq> c) (t' @ c # x') = t'" using assms(3) by (rule takeWhile_until)
  ultimately have "t = t'" using assms(1) by simp
  with assms(1) show ?thesis by simp
qed

lemma placeholder_at_match:
  assumes s: "s = ''{{'' @ body0 @ ''}}'' @ rest" and b0: "body0 \<noteq> []" "CHR ''}'' \<notin> set body0"
  shows "placeholder_at s pre name =
           ((pre = [] \<and> name = trim body0)
            \<or> (\<exists>pre'. pre = ''{{'' @ body0 @ ''}}'' @ pre' \<and> placeholder_at rest pre' name))"
proof
  assume "placeholder_at s pre name"
  then obtain body post where e: "s = pre @ ''{{'' @ body @ ''}}'' @ post"
    and b: "body \<noteq> []" "CHR ''}'' \<notin> set body" and o: "\<not> opened pre" and n: "name = trim body"
    unfolding placeholder_at_def by blast
  show "(pre = [] \<and> name = trim body0)
        \<or> (\<exists>pre'. pre = ''{{'' @ body0 @ ''}}'' @ pre' \<and> placeholder_at rest pre' name)"
  proof (cases pre)
    case Nil
    with e s have "body @ CHR ''}'' # (CHR ''}'' # post) = body0 @ CHR ''}'' # (CHR ''}'' # rest)"
      by simp
    from until_unique [OF this b(2) b0(2)] have "body = body0" by simp
    with Nil n show ?thesis by simp
  next
    case (Cons c1 p1)
    from e s have both: "pre @ ''{{'' @ body @ ''}}'' @ post
        = CHR ''{'' # CHR ''{'' # (body0 @ CHR ''}'' # (CHR ''}'' # rest))" by simp
    then have c1: "c1 = CHR ''{''" unfolding Cons by simp
    show ?thesis
    proof (cases p1)
      case Nil
      with Cons c1 have "pre = [] @ CHR ''{'' # []" by simp
      then have "opened pre" by (rule openedI) simp_all
      with o show ?thesis by simp
    next
      case p1: (Cons c2 p2)
      from both have c2: "c2 = CHR ''{''" unfolding Cons p1 by simp
      from Cons p1 c1 c2 have pre: "pre = CHR ''{'' # CHR ''{'' # p2" by simp
      let ?X = "''{{'' @ body @ ''}}'' @ post"
      from both have eq: "p2 @ ?X = body0 @ CHR ''}'' # (CHR ''}'' # rest)" unfolding pre by simp
      have "CHR ''}'' \<in> set p2"
      proof (rule ccontr)
        assume "CHR ''}'' \<notin> set p2"
        moreover have "pre = [] @ CHR ''{'' # (CHR ''{'' # p2)" using pre by simp
        ultimately have "opened pre" by (intro openedI [of pre "[]" "CHR ''{'' # p2"]) simp_all
        with o show False by simp
      qed
      from split_at_close [OF this] obtain t p3 where
        p2: "p2 = t @ CHR ''}'' # p3" and t: "CHR ''}'' \<notin> set t" by blast
      from eq p2 have "t @ CHR ''}'' # (p3 @ ?X) = body0 @ CHR ''}'' # (CHR ''}'' # rest)" by simp
      from until_unique [OF this t b0(2)] have tb: "t = body0" and r: "p3 @ ?X = CHR ''}'' # rest"
        by simp_all
      show ?thesis
      proof (cases p3)
        case Nil
        with r show ?thesis by simp
      next
        case (Cons c3 p4)
        with r have c3: "c3 = CHR ''}''" and rest: "rest = p4 @ ?X" by simp_all
        have pre': "pre = ''{{'' @ body0 @ ''}}'' @ p4" unfolding pre p2 tb Cons c3 by simp
        have "\<not> opened p4"
        proof
          assume "opened p4"
          then have "opened ((''{{'' @ body0 @ ''}}'') @ p4)" by (rule opened_prepend)
          with o pre' show False by simp
        qed
        with rest b n have "placeholder_at rest p4 name" unfolding placeholder_at_def by blast
        with pre' show ?thesis by blast
      qed
    qed
  qed
next
  assume "(pre = [] \<and> name = trim body0)
        \<or> (\<exists>pre'. pre = ''{{'' @ body0 @ ''}}'' @ pre' \<and> placeholder_at rest pre' name)"
  then show "placeholder_at s pre name"
  proof
    assume "pre = [] \<and> name = trim body0"
    with s b0 show ?thesis unfolding placeholder_at_def using not_opened_Nil by auto
  next
    assume "\<exists>pre'. pre = ''{{'' @ body0 @ ''}}'' @ pre' \<and> placeholder_at rest pre' name"
    then obtain pre' where p: "pre = ''{{'' @ body0 @ ''}}'' @ pre'"
      and pl: "placeholder_at rest pre' name" by blast
    from pl obtain body post where r: "rest = pre' @ ''{{'' @ body @ ''}}'' @ post"
      and b: "body \<noteq> []" "CHR ''}'' \<notin> set body" and o: "\<not> opened pre'" and n: "name = trim body"
      unfolding placeholder_at_def by blast
    have "\<not> opened pre"
    proof
      assume "opened pre"
      with p have "opened ((''{{'' @ body0) @ ''}}'' @ pre')" by simp
      then have "opened pre'" by (rule opened_after_close)
      with o show False by simp
    qed
    moreover from s r p have "s = pre @ ''{{'' @ body @ ''}}'' @ post" by simp
    ultimately show ?thesis unfolding placeholder_at_def using b n by blast
  qed
qed


lemma placeholder_at_Nil: "\<not> placeholder_at [] pre name"
  by (simp add: placeholder_at_def)

lemma scan_occurrences:
  "\<exists>occ. scanPlaceholders s = map snd occ
      \<and> sorted_wrt (<) (map (\<lambda>pn. length (fst pn)) occ)
      \<and> (\<forall>pre name. ((pre, name) \<in> set occ) = placeholder_at s pre name)"
proof (induction s rule: scanPlaceholders.induct)
  case 1
  have "scanPlaceholders [] = map snd ([] :: (string \<times> string) list)
      \<and> sorted_wrt (<) (map (\<lambda>pn. length (fst pn)) ([] :: (string \<times> string) list))
      \<and> (\<forall>pre name. ((pre, name) \<in> set []) = placeholder_at [] pre name)"
    by (simp add: placeholder_at_Nil)
  then show ?case by blast
next
  case (2 c cs)
  show ?case
  proof (cases "matchPlaceholder (c # cs)")
    case None
    from "2.IH"(1) [OF None] obtain occ where
      sc: "scanPlaceholders cs = map snd occ"
      and so: "sorted_wrt (<) (map (\<lambda>pn. length (fst pn)) occ)"
      and me: "\<forall>pre name. ((pre, name) \<in> set occ) = placeholder_at cs pre name"
      by blast
    let ?occ = "map (\<lambda>pn. (c # fst pn, snd pn)) occ"
    have 1: "scanPlaceholders (c # cs) = map snd ?occ"
      using None sc by (simp add: comp_def)
    have "map (\<lambda>pn. length (fst pn)) ?occ = map Suc (map (\<lambda>pn. length (fst pn)) occ)"
      by (simp add: comp_def)
    then have 2: "sorted_wrt (<) (map (\<lambda>pn. length (fst pn)) ?occ)"
      using so by (simp add: sorted_wrt_map)
    have 3: "\<forall>pre name. ((pre, name) \<in> set ?occ) = placeholder_at (c # cs) pre name"
    proof (intro allI)
      fix pre name
      have "((pre, name) \<in> set ?occ) = (\<exists>pre'. pre = c # pre' \<and> (pre', name) \<in> set occ)"
        by force
      also have "\<dots> = (\<exists>pre'. pre = c # pre' \<and> placeholder_at cs pre' name)"
        using me by simp
      also have "\<dots> = placeholder_at (c # cs) pre name"
        using placeholder_at_skip [OF None] by simp
      finally show "((pre, name) \<in> set ?occ) = placeholder_at (c # cs) pre name" .
    qed
    from 1 2 3 show ?thesis by blast
  next
    case (Some m)
    obtain cap rest where m: "m = (cap, rest)" by (cases m)
    from matchPlaceholder_Some [OF Some [unfolded m]] obtain body0 where
      s: "c # cs = ''{{'' @ body0 @ ''}}'' @ rest" and b0: "body0 \<noteq> []" "CHR ''}'' \<notin> set body0"
      and cap: "cap = capture body0" by blast
    from "2.IH"(2) [OF Some m [symmetric]] obtain occ where
      sc: "scanPlaceholders rest = map snd occ"
      and so: "sorted_wrt (<) (map (\<lambda>pn. length (fst pn)) occ)"
      and me: "\<forall>pre name. ((pre, name) \<in> set occ) = placeholder_at rest pre name"
      by blast
    let ?k = "''{{'' @ body0 @ ''}}''"
    let ?occ = "([], trim body0) # map (\<lambda>pn. (?k @ fst pn, snd pn)) occ"
    have tc: "trim cap = trim body0" unfolding cap using b0(1) by (rule trim_capture)
    have 1: "scanPlaceholders (c # cs) = map snd ?occ"
      using Some m sc tc by (simp add: comp_def)
    have "map (\<lambda>pn. length (fst pn)) (map (\<lambda>pn. (?k @ fst pn, snd pn)) occ)
          = map (\<lambda>n. length ?k + n) (map (\<lambda>pn. length (fst pn)) occ)"
      by (simp add: comp_def)
    then have "sorted_wrt (<) (map (\<lambda>pn. length (fst pn)) (map (\<lambda>pn. (?k @ fst pn, snd pn)) occ))"
      using so by (simp add: sorted_wrt_map)
    then have 2: "sorted_wrt (<) (map (\<lambda>pn. length (fst pn)) ?occ)"
      by simp
    have 3: "\<forall>pre name. ((pre, name) \<in> set ?occ) = placeholder_at (c # cs) pre name"
    proof (intro allI)
      fix pre name
      have "((pre, name) \<in> set ?occ)
            = ((pre = [] \<and> name = trim body0) \<or> (\<exists>pre'. pre = ?k @ pre' \<and> (pre', name) \<in> set occ))"
        by force
      also have "\<dots> = ((pre = [] \<and> name = trim body0)
            \<or> (\<exists>pre'. pre = ?k @ pre' \<and> placeholder_at rest pre' name))"
        using me by simp
      also have "\<dots> = placeholder_at (c # cs) pre name"
        using placeholder_at_match [OF s b0] by simp
      finally show "((pre, name) \<in> set ?occ) = placeholder_at (c # cs) pre name" .
    qed
    from 1 2 3 show ?thesis by blast
  qed
qed

lemma first_index_nth: "x \<in> set xs \<Longrightarrow> xs ! first_index xs x = x"
  unfolding first_index_def by (induction xs) auto

lemma first_index_le: "b < length xs \<Longrightarrow> xs ! b = x \<Longrightarrow> first_index xs x \<le> b"
  unfolding first_index_def
proof (induction xs arbitrary: b)
  case Nil
  then show ?case by simp
next
  case (Cons y ys)
  then show ?case by (cases b) auto
qed

lemma first_seen_positions:
  assumes sc: "xs = map snd occ"
    and so: "sorted_wrt (<) (map (\<lambda>pn. length (fst pn)) occ)"
    and i: "i < j" "j < length (foldl set_add [] xs)"
  shows "\<exists>p. (p, foldl set_add [] xs ! i) \<in> set occ
           \<and> (\<forall>q. (q, foldl set_add [] xs ! j) \<in> set occ \<longrightarrow> length p < length q)"
proof -
  let ?names = "foldl set_add [] xs"
  from insertion_order [of xs] have d: "distinct ?names" and st: "set ?names = set xs"
    and o: "sorted_wrt (<) (map (first_index xs) ?names)" by simp_all
  from i have il: "i < length ?names" by simp
  from o i have "map (first_index xs) ?names ! i < map (first_index xs) ?names ! j"
    by (intro sorted_wrt_nth_less) simp_all
  with i il have lt: "first_index xs (?names ! i) < first_index xs (?names ! j)" by simp
  let ?a = "first_index xs (?names ! i)"
  have mem: "?names ! i \<in> set xs" using il st nth_mem by blast
  then have al: "?a < length xs" by (rule first_index_less)
  then have al': "?a < length occ" by (simp add: sc)
  from mem have "xs ! ?a = ?names ! i" by (rule first_index_nth)
  with al' have sa: "snd (occ ! ?a) = ?names ! i" by (simp add: sc)
  have 1: "(fst (occ ! ?a), ?names ! i) \<in> set occ"
    using al' sa by (metis nth_mem prod.collapse)
  have 2: "\<forall>q. (q, ?names ! j) \<in> set occ \<longrightarrow> length (fst (occ ! ?a)) < length q"
  proof (intro allI impI)
    fix q assume "(q, ?names ! j) \<in> set occ"
    then obtain b where b: "b < length occ" "occ ! b = (q, ?names ! j)"
      by (auto simp: in_set_conv_nth)
    then have "b < length xs" "xs ! b = ?names ! j" by (simp_all add: sc)
    then have "first_index xs (?names ! j) \<le> b" by (rule first_index_le)
    with lt have ab: "?a < b" by simp
    from so ab b(1) have "map (\<lambda>pn. length (fst pn)) occ ! ?a < map (\<lambda>pn. length (fst pn)) occ ! b"
      by (intro sorted_wrt_nth_less) simp_all
    with al' b show "length (fst (occ ! ?a)) < length q" by simp
  qed
  from 1 2 show ?thesis by blast
qed

text \<open>
  What the text without its markup is, said without the scanner. A document is written
  as a sequence of segments: a piece of markup, \<open><\<close>, one or more characters other than
  \<open>>\<close>, and \<open>>\<close>; or a run of characters without \<open><\<close>. Stripping the markup leaves the
  runs, in order.
\<close>

datatype segment = Markup string | Chars string

fun written :: "segment \<Rightarrow> string" where
  "written (Markup t) = CHR ''<'' # t @ ''>''"
| "written (Chars x) = x"

fun chars_of :: "segment \<Rightarrow> string" where
  "chars_of (Markup t) = []"
| "chars_of (Chars x) = x"

fun well_formed :: "segment \<Rightarrow> bool" where
  "well_formed (Markup t) = (t \<noteq> [] \<and> CHR ''>'' \<notin> set t)"
| "well_formed (Chars x) = (CHR ''<'' \<notin> set x)"

lemma stripTags_chars: "CHR ''<'' \<notin> set x \<Longrightarrow> stripTags (x @ s) = x @ stripTags s"
  by (induction x) auto

lemma stripTags_markup:
  assumes "t \<noteq> []" and "CHR ''>'' \<notin> set t"
  shows "stripTags (CHR ''<'' # t @ CHR ''>'' # s) = stripTags s"
proof -
  have 1: "takeWhile (\<lambda>x. x \<noteq> CHR ''>'') (t @ CHR ''>'' # s) = t"
    using assms(2) by (rule takeWhile_until)
  have 2: "dropWhile (\<lambda>x. x \<noteq> CHR ''>'') (t @ CHR ''>'' # s) = CHR ''>'' # s"
    using assms(2) by (rule dropWhile_until)
  show ?thesis using assms(1) by (simp add: 1 2 Let_def)
qed

lemma stripTags_segments:
  "list_all well_formed segs \<Longrightarrow> stripTags (concat (map written segs)) = concat (map chars_of segs)"
proof (induction segs)
  case Nil
  then show ?case by simp
next
  case (Cons g segs)
  then have ih: "stripTags (concat (map written segs)) = concat (map chars_of segs)" by simp
  show ?case
  proof (cases g)
    case (Markup t)
    with Cons.prems have "t \<noteq> []" "CHR ''>'' \<notin> set t" by simp_all
    then have "stripTags (CHR ''<'' # t @ CHR ''>'' # concat (map written segs))
        = stripTags (concat (map written segs))" by (rule stripTags_markup)
    with ih Markup show ?thesis by simp
  next
    case (Chars x)
    with Cons.prems have "CHR ''<'' \<notin> set x" by simp
    then have "stripTags (x @ concat (map written segs)) = x @ stripTags (concat (map written segs))"
      by (rule stripTags_chars)
    with ih Chars show ?thesis by simp
  qed
qed

text \<open>
  Claim C6. When the template is an archive whose document text can be read, and read
  again after sanitising, \<open>extractPlaceholders\<close> returns a list in which every name
  occurs once, however often it occurs in the text; a name is in the list exactly when
  it is the name of a placeholder of the sanitized text without its markup, that is the
  trimmed text between a \<open>{{\<close> and the next \<open>}}\<close>; and the names stand in the order of
  their first occurrences: of two names of the list, the earlier one has an occurrence
  that stands before every occurrence of the later one. The text without its markup is,
  for a document written as markup and character runs, the runs put together.
\<close>

theorem placeholders_once_in_first_seen_order:
  assumes "readXml z tb = Some xml0"
    and "readXml z (writeXml z tb (fixSplitPlaceholders (normalizeXml xml0))) = Some xml"
  shows "\<exists>names. extractPlaceholders z tb = Some names
           \<and> distinct names
           \<and> (\<forall>name. (name \<in> set names) = (\<exists>pre. placeholder_at (stripTags xml) pre name))
           \<and> (\<forall>i j. i < j \<and> j < length names \<longrightarrow>
                (\<exists>p. placeholder_at (stripTags xml) p (names ! i)
                   \<and> (\<forall>q. placeholder_at (stripTags xml) q (names ! j) \<longrightarrow> length p < length q)))
           \<and> (\<forall>segs. list_all well_formed segs \<and> xml = concat (map written segs) \<longrightarrow>
                stripTags xml = concat (map chars_of segs))"
proof -
  let ?found = "scanPlaceholders (stripTags xml)"
  let ?names = "foldl set_add [] ?found"
  have e: "extractPlaceholders z tb = Some ?names"
    using assms by (simp add: extractPlaceholders_def sanitizeTemplateBuffer_def)
  from scan_occurrences [of "stripTags xml"] obtain occ where
    sc: "?found = map snd occ"
    and so: "sorted_wrt (<) (map (\<lambda>pn. length (fst pn)) occ)"
    and me: "\<forall>pre name. ((pre, name) \<in> set occ) = placeholder_at (stripTags xml) pre name"
    by blast
  have d: "distinct ?names" and st: "set ?names = set ?found"
    using insertion_order [of ?found] by simp_all
  have m: "\<forall>name. (name \<in> set ?names) = (\<exists>pre. placeholder_at (stripTags xml) pre name)"
  proof
    fix name
    have "(name \<in> set ?names) = (name \<in> snd ` set occ)" using st unfolding sc by simp
    also have "\<dots> = (\<exists>pre. (pre, name) \<in> set occ)" by force
    also have "\<dots> = (\<exists>pre. placeholder_at (stripTags xml) pre name)" using me by simp
    finally show "(name \<in> set ?names) = (\<exists>pre. placeholder_at (stripTags xml) pre name)" .
  qed
  have ord: "\<forall>i j. i < j \<and> j < length ?names \<longrightarrow>
                (\<exists>p. placeholder_at (stripTags xml) p (?names ! i)
                   \<and> (\<forall>q. placeholder_at (stripTags xml) q (?names ! j) \<longrightarrow> length p < length q))"
  proof (intro allI impI)
    fix i j assume ij: "i < j \<and> j < length ?names"
    then have "i < j" "j < length ?names" by simp_all
    from first_seen_positions [OF sc so this] obtain p where
      "(p, ?names ! i) \<in> set occ"
      "\<forall>q. (q, ?names ! j) \<in> set occ \<longrightarrow> length p < length q" by blast
    with me show "\<exists>p. placeholder_at (stripTags xml) p (?names ! i)
                   \<and> (\<forall>q. placeholder_at (stripTags xml) q (?names ! j) \<longrightarrow> length p < length q)"
      by blast
  qed
  have seg: "\<forall>segs. list_all well_formed segs \<and> xml = concat (map written segs) \<longrightarrow>
                stripTags xml = concat (map chars_of segs)"
    using stripTags_segments by blast
  from e d m ord seg show ?thesis by blast
qed


theorem placeholders_once_in_first_seen_order_witness:
  "readXml plain_zip example_template = Some example_template
   \<and> readXml plain_zip
        (writeXml plain_zip example_template
           (fixSplitPlaceholders (normalizeXml example_template)))
       = Some ''<w:t>{{nome}}</w:t><w:t>{{cpf}} {{nome}} {{cpf}}</w:t>''
   \<and> stripTags ''<w:t>{{nome}}</w:t><w:t>{{cpf}} {{nome}} {{cpf}}</w:t>''
       = ''{{nome}}{{cpf}} {{nome}} {{cpf}}''
   \<and> extractPlaceholders plain_zip example_template = Some [''nome'', ''cpf'']
   \<and> distinct [''nome'', ''cpf'']
   \<and> (\<exists>pre. placeholder_at ''{{nome}}{{cpf}} {{nome}} {{cpf}}'' pre ''cpf'')
   \<and> (\<nexists>pre. placeholder_at ''{{nome}}{{cpf}} {{nome}} {{cpf}}'' pre ''nome}}{{cpf'')"
proof -
  let ?xml = "''<w:t>{{nome}}</w:t><w:t>{{cpf}} {{nome}} {{cpf}}</w:t>''"
  let ?segs = "[Markup ''w:t'', Chars ''{{nome}}'', Markup ''/w:t'', Markup ''w:t'',
                Chars ''{{cpf}} {{nome}} {{cpf}}'', Markup ''/w:t'']"
  have h1: "readXml plain_zip example_template = Some example_template" by code_simp
  have h2: "readXml plain_zip
        (writeXml plain_zip example_template
           (fixSplitPlaceholders (normalizeXml example_template))) = Some ?xml"
    by code_simp
  have wf: "list_all well_formed ?segs" by simp
  have wr: "?xml = concat (map written ?segs)" by simp
  have ex: "extractPlaceholders plain_zip example_template = Some [''nome'', ''cpf'']"
    by code_simp
  from placeholders_once_in_first_seen_order [OF h1 h2] ex
  have d: "distinct [''nome'', ''cpf'']"
    and m: "\<forall>name. (name \<in> set [''nome'', ''cpf'']) = (\<exists>pre. placeholder_at (stripTags ?xml) pre name)"
    and sg: "\<forall>segs. list_all well_formed segs \<and> ?xml = concat (map written segs) \<longrightarrow>
                stripTags ?xml = concat (map chars_of segs)"
    by auto
  from sg wf wr have "stripTags ?xml = concat (map chars_of ?segs)" by blast
  then have st: "stripTags ?xml = ''{{nome}}{{cpf}} {{nome}} {{cpf}}''" by simp
  from m have "(''cpf'' \<in> set [''nome'', ''cpf''])
      = (\<exists>pre. placeholder_at (stripTags ?xml) pre ''cpf'')" by blast
  then have c: "\<exists>pre. placeholder_at ''{{nome}}{{cpf}} {{nome}} {{cpf}}'' pre ''cpf''"
    unfolding st by simp
  from m have "(''nome}}{{cpf'' \<in> set [''nome'', ''cpf''])
      = (\<exists>pre. placeholder_at (stripTags ?xml) pre ''nome}}{{cpf'')" by blast
  then have n: "\<nexists>pre. placeholder_at ''{{nome}}{{cpf}} {{nome}} {{cpf}}'' pre ''nome}}{{cpf''"
    unfolding st by simp
  from h1 h2 st ex d c n show ?thesis by blast
qed
section \<open>Verification: conversion chain\<close>

text \<open>The first result in a list of results that is not \<open>null\<close>.\<close>

fun firstNonNull :: "'a option list \<Rightarrow> 'a option" where
  "firstNonNull [] = None"
| "firstNonNull (None # rs) = firstNonNull rs"
| "firstNonNull (Some r # rs) = Some r"

lemma firstNonNull_single [simp]: "firstNonNull [r] = r"
  by (cases r) simp_all








section \<open>Verification: mail transports\<close>

text \<open>What holds of the state of the SMTP loop after any number of entries.\<close>

definition smtp_invariant :: "smtp_state \<Rightarrow> bool" where
  "smtp_invariant st =
     (length (s_results st) = s_processed st
      \<and> s_sent st = length (filter (\<lambda>r. row_status r = ''sent'') (s_results st))
      \<and> s_processed st - s_sent st = length (filter (\<lambda>r. row_status r = ''failed'') (s_results st))
      \<and> s_sent st \<le> s_processed st
      \<and> list_all (\<lambda>r. row_status r = ''sent'' \<or> row_status r = ''failed'') (s_results st))"

lemma smtpStep_invariant:
  "smtp_invariant st \<Longrightarrow> smtp_invariant (smtpStep sendMail from subject msg n st item)"
  by (auto simp: smtp_invariant_def smtpStep_def Let_def split: outcome.splits)

lemma smtpStep_results:
  "map row_to (s_results (smtpStep sendMail from subject msg n st item))
     = map row_to (s_results st) @ [e_to item]"
  by (auto simp: smtpStep_def Let_def split: outcome.splits)

lemma smtp_loop_invariant:
  "smtp_invariant st \<Longrightarrow>
   smtp_invariant (foldl (smtpStep sendMail from subject msg n) st queue)"
  by (induction queue arbitrary: st) (simp_all add: smtpStep_invariant)

lemma smtp_loop_results:
  "map row_to (s_results (foldl (smtpStep sendMail from subject msg n) st queue))
     = map row_to (s_results st) @ map e_to queue"
  by (induction queue arbitrary: st) (simp_all add: smtpStep_results)

lemma smtp_invariant_init:
  "smtp_invariant \<lparr>s_sent = 0, s_processed = 0, s_errors = [], s_results = [],
                    s_attempts = [], s_progress = []\<rparr>"
  by (simp add: smtp_invariant_def)

text \<open>
  Claim C10. Whatever the configuration, the environment and the outcomes of the single
  sends, \<open>sendEmailsSmtp\<close> returns a list of results with one row per queue entry, in
  the order of the queue and for the same recipients, each with status \<open>sent\<close> or
  \<open>failed\<close>; \<open>sent\<close> and \<open>failed\<close> count the rows of each status and add up to the length
  of the queue. When SMTP is not configured, \<open>sent\<close> is 0, \<open>failed\<close> is the length of the
  queue, every row is \<open>failed\<close> with the error \<open>SMTP nao configurado\<close>, and no mail is
  handed to the transporter.
\<close>

theorem smtp_accounts_for_every_recipient:
  "\<exists>rows. results (run_result (sendEmailsSmtp toNumber env sendMail queue subject msg cfg)) = Some rows
     \<and> sent (run_result (sendEmailsSmtp toNumber env sendMail queue subject msg cfg))
        + failed (run_result (sendEmailsSmtp toNumber env sendMail queue subject msg cfg))
        = length queue
     \<and> length rows = length queue
     \<and> map row_to rows = map e_to queue
     \<and> list_all (\<lambda>r. row_status r = ''sent'' \<or> row_status r = ''failed'') rows
     \<and> sent (run_result (sendEmailsSmtp toNumber env sendMail queue subject msg cfg))
        = length (filter (\<lambda>r. row_status r = ''sent'') rows)
     \<and> failed (run_result (sendEmailsSmtp toNumber env sendMail queue subject msg cfg))
        = length (filter (\<lambda>r. row_status r = ''failed'') rows)
     \<and> (buildSmtpOptions toNumber env cfg = None \<longrightarrow>
          sent (run_result (sendEmailsSmtp toNumber env sendMail queue subject msg cfg)) = 0
        \<and> failed (run_result (sendEmailsSmtp toNumber env sendMail queue subject msg cfg)) = length queue
        \<and> list_all (\<lambda>r. row_status r = ''failed'' \<and> row_error r = ''SMTP nao configurado'') rows
        \<and> run_attempts (sendEmailsSmtp toNumber env sendMail queue subject msg cfg) = [])"
proof (cases "buildSmtpOptions toNumber env cfg")
  case None
  then show ?thesis
    by (simp add: sendEmailsSmtp_def list_all_iff comp_def)
next
  case (Some options)
  define st where "st = foldl (smtpStep sendMail (opt_from options) subject msg (length queue))
               \<lparr>s_sent = 0, s_processed = 0, s_errors = [], s_results = [],
                s_attempts = [], s_progress = []\<rparr> queue"
  have run: "run_result (sendEmailsSmtp toNumber env sendMail queue subject msg cfg)
      = \<lparr>sent = s_sent st, failed = length queue - s_sent st, errors = s_errors st,
         results = Some (s_results st)\<rparr>"
    using Some by (simp add: sendEmailsSmtp_def Let_def st_def)
  have inv: "smtp_invariant st"
    unfolding st_def by (rule smtp_loop_invariant) (rule smtp_invariant_init)
  have tos: "map row_to (s_results st) = map e_to queue"
    unfolding st_def by (simp add: smtp_loop_results)
  then have "length (map row_to (s_results st)) = length (map e_to queue)" by (rule arg_cong)
  then have len: "length (s_results st) = length queue" by simp
  from inv have "length (s_results st) = s_processed st" unfolding smtp_invariant_def by blast
  with len have proc: "s_processed st = length queue" by simp
  from inv have "s_sent st \<le> s_processed st" unfolding smtp_invariant_def by blast
  then have le: "s_sent st \<le> length queue" unfolding proc .
  from inv have cs: "s_sent st = length (filter (\<lambda>r. row_status r = ''sent'') (s_results st))"
    unfolding smtp_invariant_def by blast
  from inv
  have "s_processed st - s_sent st = length (filter (\<lambda>r. row_status r = ''failed'') (s_results st))"
    unfolding smtp_invariant_def by blast
  then have cf: "length queue - s_sent st = length (filter (\<lambda>r. row_status r = ''failed'') (s_results st))"
    unfolding proc .
  from inv have all: "list_all (\<lambda>r. row_status r = ''sent'' \<or> row_status r = ''failed'') (s_results st)"
    unfolding smtp_invariant_def by blast
  from le have sum: "s_sent st + (length queue - s_sent st) = length queue" by simp
  have "sent \<lparr>sent = s_sent st, failed = length queue - s_sent st, errors = s_errors st,
         results = Some (s_results st)\<rparr> = s_sent st"
    and "failed \<lparr>sent = s_sent st, failed = length queue - s_sent st, errors = s_errors st,
         results = Some (s_results st)\<rparr> = length queue - s_sent st"
    and "results \<lparr>sent = s_sent st, failed = length queue - s_sent st, errors = s_errors st,
         results = Some (s_results st)\<rparr> = Some (s_results st)"
    by simp_all
  with Some sum len tos all cs cf show ?thesis
    unfolding run by (intro exI [of _ "s_results st"]) (simp only: option.simps simp_thms)
qed


theorem smtp_accounts_for_every_recipient_witness:
  "buildSmtpOptions (\<lambda>s. None) example_smtp_env example_smtp_config = None
   \<and> run_result (sendEmailsSmtp (\<lambda>s. None) example_smtp_env (\<lambda>n m. Returned ()) example_queue
        [] [] example_smtp_config)
       = \<lparr>sent = 0, failed = 2, errors = [''SMTP nao configurado''],
          results = Some
            [\<lparr>row_to = ''ana@example.org'', row_filename = ''a.pdf, b.pdf'',
               row_status = ''failed'', row_error = ''SMTP nao configurado''\<rparr>,
             \<lparr>row_to = ''bob@example.org'', row_filename = ''c.pdf'',
               row_status = ''failed'', row_error = ''SMTP nao configurado''\<rparr>]\<rparr>
   \<and> run_attempts (sendEmailsSmtp (\<lambda>s. None) example_smtp_env (\<lambda>n m. Returned ()) example_queue
        [] [] example_smtp_config) = []
   \<and> length example_queue = 2"
proof -
  let ?run = "sendEmailsSmtp (\<lambda>s. None) example_smtp_env (\<lambda>n m. Returned ()) example_queue
        [] [] example_smtp_config"
  have h: "buildSmtpOptions (\<lambda>s. None) example_smtp_env example_smtp_config = None"
    by code_simp
  have r: "run_result ?run
       = \<lparr>sent = 0, failed = 2, errors = [''SMTP nao configurado''],
          results = Some
            [\<lparr>row_to = ''ana@example.org'', row_filename = ''a.pdf, b.pdf'',
               row_status = ''failed'', row_error = ''SMTP nao configurado''\<rparr>,
             \<lparr>row_to = ''bob@example.org'', row_filename = ''c.pdf'',
               row_status = ''failed'', row_error = ''SMTP nao configurado''\<rparr>]\<rparr>"
    by code_simp
  have n: "length example_queue = 2" by code_simp
  from smtp_accounts_for_every_recipient
         [of "\<lambda>s. None" example_smtp_env "\<lambda>n m. Returned ()" example_queue "[]" "[]"
             example_smtp_config] h
  have "run_attempts ?run = []" by blast
  with h r n show ?thesis by blast
qed

text \<open>
  Claim C9. On a platform other than \<open>win32\<close> the Outlook transport returns at once,
  whatever creating the temporary directory and running the script would have done: for a
  non-empty queue nothing is sent, \<open>failed\<close> is the length of the queue and so not zero,
  and the one error names the missing capability.
\<close>

theorem outlook_unsupported_platform_fails_all:
  assumes "o_platform env \<noteq> ''win32''" and "queue \<noteq> []"
  shows "\<exists>r. sendEmailsOutlook env queue subject msg outlookFrom0 = Returned r
           \<and> sent r = 0 \<and> failed r = length queue \<and> 0 < failed r
           \<and> errors r = [''Outlook disponivel apenas no Windows.'']
           \<and> sendEmailsOutlook (env\<lparr>makeTemp := t, runOutlook := f\<rparr>) queue subject msg outlookFrom0
               = Returned r"
  using assms by (simp add: sendEmailsOutlook_def)

theorem outlook_unsupported_platform_fails_all_witness:
  "o_platform example_outlook_env \<noteq> ''win32'' \<and> example_queue \<noteq> []
   \<and> sendEmailsOutlook example_outlook_env example_queue [] [] []
       = Returned \<lparr>sent = 0, failed = 2, errors = [''Outlook disponivel apenas no Windows.''],
                   results = None\<rparr>"
proof -
  have h1: "o_platform example_outlook_env \<noteq> ''win32''" by code_simp
  have h2: "example_queue \<noteq> []" by code_simp
  have n: "length example_queue = 2" by code_simp
  from outlook_unsupported_platform_fails_all [OF h1 h2, of "[]" "[]" "[]"]
  obtain r where r: "sendEmailsOutlook example_outlook_env example_queue [] [] [] = Returned r"
    "sent r = 0" "failed r = length example_queue"
    "errors r = [''Outlook disponivel apenas no Windows.'']" by blast
  have "sendEmailsOutlook example_outlook_env example_queue [] [] []
       = Returned \<lparr>sent = 0, failed = 2, errors = [''Outlook disponivel apenas no Windows.''],
                   results = None\<rparr>"
    using h1 n by (simp add: sendEmailsOutlook_def)
  with h1 h2 show ?thesis by blast
qed

section \<open>Verification: the generate job\<close>

text \<open>
  A file name numbered before its \<open>.docx\<close> extension, the name the loop of the runner
  settles on given the names in use and the name the template expands to, and the
  warnings on the console that belong to a row.
\<close>

definition numberedDocx :: "string \<Rightarrow> nat \<Rightarrow> string" where
  "numberedDocx filename k = numbered (take (length filename - 5) filename) k ''.docx''"

definition first_free_name :: "string list \<Rightarrow> string \<Rightarrow> string \<Rightarrow> bool" where
  "first_free_name used filename name =
     (name \<notin> set used
      \<and> (if filename \<notin> set used then name = filename
         else (\<exists>k. 2 \<le> k \<and> name = numberedDocx filename k
                 \<and> (\<forall>j. 2 \<le> j \<and> j < k \<longrightarrow> numberedDocx filename j \<in> set used))))"

definition isWarn :: "log_entry \<Rightarrow> bool" where
  "isWarn e = (case e of Warn w \<Rightarrow> True | _ \<Rightarrow> False)"

definition warningsOfRow :: "nat \<Rightarrow> (nat \<times> log_entry) list \<Rightarrow> log_entry list" where
  "warningsOfRow idx lines = map snd (filter (\<lambda>(k, e). k = idx \<and> isWarn e) lines)"

lemma replace_docx_numbered:
  assumes "ends_with ''.docx'' (toLowerCase filename)"
  shows "replaceExtension ''.docx'' (''_'' @ decimal k @ ''.docx'') filename = numberedDocx filename k"
proof -
  have "length ''.docx'' = 5" by simp
  with assms show ?thesis
    by (simp only: replaceExtension_def numberedDocx_def numbered_def if_True append_assoc)
qed

lemma numberedDocx_inj: "numberedDocx f m = numberedDocx f n \<Longrightarrow> m = n"
  unfolding numberedDocx_def by (rule numbered_inj)

lemma uniqueDocxName_loop:
  assumes docx: "ends_with ''.docx'' (toLowerCase f)"
  shows "\<exists>n. uniqueDocxName used f c fn = Some n \<and> n \<notin> set used
           \<and> (if fn \<notin> set used then n = fn
              else (\<exists>k. c \<le> k \<and> n = numberedDocx f k
                      \<and> (\<forall>j. c \<le> j \<and> j < k \<longrightarrow> numberedDocx f j \<in> set used)))"
proof (induction "card {k. c \<le> k \<and> numberedDocx f k \<in> set used} + (if fn \<in> set used then 1 else 0)"
        arbitrary: c fn rule: less_induct)
  case less
  show ?case
  proof (cases "fn \<in> set used")
    case False
    then show ?thesis by (subst uniqueDocxName.simps) simp
  next
    case True
    have fin: "finite {k. numberedDocx f k \<in> set used}"
      by (rule finite_taken) (rule numberedDocx_inj)
    have step: "card {k. c + 1 \<le> k \<and> numberedDocx f k \<in> set used}
                + (if numberedDocx f c \<in> set used then 1 else 0)
                = card {k. c \<le> k \<and> numberedDocx f k \<in> set used}"
      using taken_from_step [OF fin, of c] .
    have unf: "uniqueDocxName used f c fn = uniqueDocxName used f (c + 1) (numberedDocx f c)"
      by (subst uniqueDocxName.simps) (simp only: True if_True replace_docx_numbered [OF docx])
    have "card {k. c + 1 \<le> k \<and> numberedDocx f k \<in> set used}
            + (if numberedDocx f c \<in> set used then 1 else 0)
          < card {k. c \<le> k \<and> numberedDocx f k \<in> set used} + (if fn \<in> set used then 1 else 0)"
      using step True by simp
    from less [OF this] obtain n where
      n: "uniqueDocxName used f (c + 1) (numberedDocx f c) = Some n" "n \<notin> set used"
      and alt: "if numberedDocx f c \<notin> set used then n = numberedDocx f c
                else (\<exists>k. c + 1 \<le> k \<and> n = numberedDocx f k
                        \<and> (\<forall>j. c + 1 \<le> j \<and> j < k \<longrightarrow> numberedDocx f j \<in> set used))"
      by blast
    have "\<exists>k. c \<le> k \<and> n = numberedDocx f k
            \<and> (\<forall>j. c \<le> j \<and> j < k \<longrightarrow> numberedDocx f j \<in> set used)"
    proof (cases "numberedDocx f c \<in> set used")
      case False
      with alt have "n = numberedDocx f c" by simp
      moreover have "\<forall>j. c \<le> j \<and> j < c \<longrightarrow> numberedDocx f j \<in> set used" by auto
      ultimately have "c \<le> c \<and> n = numberedDocx f c
            \<and> (\<forall>j. c \<le> j \<and> j < c \<longrightarrow> numberedDocx f j \<in> set used)" by blast
      then show ?thesis by blast
    next
      case taken: True
      with alt obtain k where k: "c + 1 \<le> k" "n = numberedDocx f k"
        "\<forall>j. c + 1 \<le> j \<and> j < k \<longrightarrow> numberedDocx f j \<in> set used" by auto
      have "\<forall>j. c \<le> j \<and> j < k \<longrightarrow> numberedDocx f j \<in> set used"
      proof (intro allI impI)
        fix j assume j: "c \<le> j \<and> j < k"
        show "numberedDocx f j \<in> set used"
        proof (cases "j = c")
          case True
          with taken show ?thesis by simp
        next
          case False
          with j have "c + 1 \<le> j \<and> j < k" by simp
          with k(3) show ?thesis by blast
        qed
      qed
      with k show ?thesis by (intro exI [of _ k]) simp
    qed
    with n True show ?thesis unfolding unf by simp
  qed
qed

lemma uniqueDocxName_first_free:
  assumes "ends_with ''.docx'' (toLowerCase f)"
  shows "\<exists>n. uniqueDocxName used f 2 f = Some n \<and> first_free_name used f n"
  using uniqueDocxName_loop [OF assms, of used 2 f] unfolding first_free_name_def by blast

lemma ends_with_append: "ends_with suffix (a @ suffix)"
  by (simp add: ends_with_def)

lemma toLowerCase_docx: "toLowerCase (f @ ''.docx'') = toLowerCase f @ ''.docx''"
  by (simp add: toLowerCase_def lower_char_def)

lemma rowFilename_docx: "ends_with ''.docx'' (toLowerCase (rowFilename inp idx row))"
proof -
  define f where "f = expandTemplate
      (ctxValue row idx (getRowValue row (primaryColumn (mapping inp) (primaryPlaceholder inp))))
      (orElse (nameTemplate inp) ''output_{index}_{primary}.docx'')"
  have r: "rowFilename inp idx row = (if ends_with ''.docx'' (toLowerCase f) then f else f @ ''.docx'')"
    by (simp add: rowFilename_def Let_def f_def)
  show ?thesis
  proof (cases "ends_with ''.docx'' (toLowerCase f)")
    case True
    then show ?thesis unfolding r by simp
  next
    case False
    have "ends_with ''.docx'' (toLowerCase f @ ''.docx'')" by (rule ends_with_append)
    with False show ?thesis unfolding r by (simp only: if_False toLowerCase_docx)
  qed
qed


lemma logAll_fields [simp]:
  "zipDocx (logAll idx es st) = zipDocx st"
  "zipPdf (logAll idx es st) = zipPdf st"
  "usedNames (logAll idx es st) = usedNames st"
  "emailQueue (logAll idx es st) = emailQueue st"
  "usedNamesByRecipient (logAll idx es st) = usedNamesByRecipient st"
  "the_job (logAll idx es st) = the_job st"
  "console (logAll idx es st) = console st @ map (\<lambda>e. (idx, e)) es"
  by (simp_all add: logAll_def)

lemma queueForRecipients_frame:
  "zipDocx (queueForRecipients a st rs) = zipDocx st
   \<and> zipPdf (queueForRecipients a st rs) = zipPdf st
   \<and> usedNames (queueForRecipients a st rs) = usedNames st
   \<and> console (queueForRecipients a st rs) = console st
   \<and> the_job (queueForRecipients a st rs) = the_job st"
  unfolding queueForRecipients_def
  by (induction rs arbitrary: st) (simp_all split: option.splits prod.splits)

lemma emailStep_console:
  "\<exists>extra. console (emailStep env inp idx row pdfName pdfBuffer pdfValid st)
      = console st @ map (\<lambda>e. (idx, e)) extra"
proof -
  let ?rs = "uniqueRecipients (parseRecipients env (getRowValue row (emailColumn inp)))"
  show ?thesis
  proof (cases "emailColumn inp = [] \<or> ?rs = []")
    case True
    then have "emailStep env inp idx row pdfName pdfBuffer pdfValid st = st"
      by (auto simp: emailStep_def Let_def)
    then show ?thesis by (intro exI [of _ "[]"]) simp
  next
    case False
    show ?thesis
    proof (cases pdfValid)
      case no: False
      with False have "emailStep env inp idx row pdfName pdfBuffer pdfValid st
          = logAll idx [Warn (''PDF nao gerado; email nao enviado para '' @ join '', '' ?rs)] st"
        by (simp add: emailStep_def Let_def)
      then show ?thesis
        by (intro exI [of _ "[Warn (''PDF nao gerado; email nao enviado para '' @ join '', '' ?rs)]"])
           (simp only: logAll_fields)
    next
      case True
      obtain a lg where p: "preparePdfAttachment pdfName pdfBuffer [(''row'', decimal (idx + 1))] = (a, lg)"
        by (cases "preparePdfAttachment pdfName pdfBuffer [(''row'', decimal (idx + 1))]")
      with False True have "emailStep env inp idx row pdfName pdfBuffer pdfValid st
          = queueForRecipients a (logAll idx lg st) ?rs"
        by (simp add: emailStep_def Let_def)
      then show ?thesis
        by (intro exI [of _ lg]) (simp only: queueForRecipients_frame logAll_fields)
    qed
  qed
qed

lemma emailStep_frame:
  "zipDocx (emailStep env inp idx row pdfName pdfBuffer pdfValid st) = zipDocx st
   \<and> zipPdf (emailStep env inp idx row pdfName pdfBuffer pdfValid st) = zipPdf st
   \<and> usedNames (emailStep env inp idx row pdfName pdfBuffer pdfValid st) = usedNames st
   \<and> the_job (emailStep env inp idx row pdfName pdfBuffer pdfValid st) = the_job st"
  by (simp add: emailStep_def Let_def queueForRecipients_frame split: prod.splits)

lemma emailStep_unverified:
  "emailQueue (emailStep env inp idx row pdfName pdfBuffer False st) = emailQueue st
   \<and> usedNamesByRecipient (emailStep env inp idx row pdfName pdfBuffer False st)
       = usedNamesByRecipient st"
  by (simp add: emailStep_def Let_def)

lemma chain_null_warns:
  "docxBufferToPdf cv b = Returned (None, lg) \<Longrightarrow> Warn PUPPETEER_NOTICE \<in> set lg"
  by (auto simp: docxBufferToPdf_def split: outcome.splits option.splits prod.splits)

lemma map_set_fresh: "k \<notin> fst ` set m \<Longrightarrow> map_set m k v = m @ [(k, v)]"
  by (induction m) auto

lemma set_add_fresh: "x \<notin> set s \<Longrightarrow> set_add s x = s @ [x]"
  by (simp add: set_add_def)


lemma finishRow_unverified:
  assumes r: "renderDoc env (templateBuffer inp) (rowData inp row) (placeholders inp) = Returned doc"
    and c: "docxBufferToPdf (conv env) doc = Returned (pdf, lg)"
    and v: "\<not> isPdfBuffer pdf"
  shows "\<exists>st'. finishRow env inp now idx row fn st = (None, st')
           \<and> zipDocx st' = map_set (zipDocx st) fn doc
           \<and> usedNames st' = set_add (usedNames st) fn
           \<and> zipPdf st' = zipPdf st
           \<and> emailQueue st' = emailQueue st
           \<and> set (console st) \<subseteq> set (console st')
           \<and> (\<exists>w. (idx, Warn w) \<in> set (console st'))
           \<and> status (the_job st') = status (the_job st)"
proof -
  define st2 where "st2 = st\<lparr>usedNames := set_add (usedNames st) fn,
                              zipDocx := map_set (zipDocx st) fn doc\<rparr>"
  define st4 where "st4 = (case pdf of
        None \<Rightarrow> logAll idx lg st2
      | Some p \<Rightarrow> logAll idx [Warn (''PDF invalido gerado na linha '' @ decimal (idx + 1) @ ''.'')]
                   (logAll idx lg st2))"
  define st5 where "st5 = emailStep env inp idx row (replaceExtension ''.docx'' ''.pdf'' fn) pdf False st4"
  have fin: "finishRow env inp now idx row fn st =
      (None, st5\<lparr>the_job := touchJob now ((the_job st5)
                 \<lparr>current := idx + 1,
                  message := ''Processando linha '' @ decimal (idx + 1) @ '' de ''
                               @ decimal (length (rows inp)) @ ''.''\<rparr>)\<rparr>)"
    using r c v
    by (cases pdf) (simp_all add: finishRow_def Let_def st2_def st4_def st5_def)
  have w4: "\<exists>w. (idx, Warn w) \<in> set (console st4)"
  proof (cases pdf)
    case None
    with c have "Warn PUPPETEER_NOTICE \<in> set lg" by (simp add: chain_null_warns)
    then have "(idx, Warn PUPPETEER_NOTICE) \<in> set (console st4)"
      using None by (simp add: st4_def)
    then show ?thesis by blast
  next
    case (Some p)
    then show ?thesis by (auto simp: st4_def)
  qed
  have c4: "set (console st) \<subseteq> set (console st4)"
    by (cases pdf) (auto simp: st4_def st2_def)
  obtain extra where c5: "console st5 = console st4 @ map (\<lambda>e. (idx, e)) extra"
    unfolding st5_def using emailStep_console by blast
  have f4: "zipDocx st4 = map_set (zipDocx st) fn doc" "usedNames st4 = set_add (usedNames st) fn"
    "zipPdf st4 = zipPdf st" "emailQueue st4 = emailQueue st" "the_job st4 = the_job st"
    by (cases pdf; simp add: st4_def st2_def)+
  have f5: "zipDocx st5 = zipDocx st4" "usedNames st5 = usedNames st4" "zipPdf st5 = zipPdf st4"
    "the_job st5 = the_job st4" "emailQueue st5 = emailQueue st4"
    unfolding st5_def by (simp_all add: emailStep_frame emailStep_unverified)
  from w4 c4 c5 f4 f5 show ?thesis
    unfolding fin by (auto simp: touchJob_def)
qed


lemma processRow_defined:
  "\<exists>fn. first_free_name (usedNames st) (rowFilename inp idx row) fn
      \<and> processRow env inp now idx row st = Some (finishRow env inp now idx row fn st)"
proof -
  from uniqueDocxName_first_free [OF rowFilename_docx, of "usedNames st" inp idx row]
  obtain fn where "uniqueDocxName (usedNames st) (rowFilename inp idx row) 2 (rowFilename inp idx row)
      = Some fn" and "first_free_name (usedNames st) (rowFilename inp idx row) fn" by blast
  then show ?thesis by (auto simp: processRow_def Let_def)
qed

text \<open>The archive of documents and the set of used names go together.\<close>

definition names_in_step :: "gen_state \<Rightarrow> bool" where
  "names_in_step st = (map fst (zipDocx st) = usedNames st \<and> distinct (usedNames st))"



lemma first_free_name_cong:
  "set used = set used' \<Longrightarrow> first_free_name used f n = first_free_name used' f n"
  by (simp add: first_free_name_def)


definition initialState :: "job \<Rightarrow> gen_state" where
  "initialState j = \<lparr>zipDocx = [], zipPdf = [], usedNames = [], emailQueue = [],
                      usedNamesByRecipient = [], console = [], the_job = j\<rparr>"






text \<open>
  A row whose document is rendered and whose conversion returns a result that is not a
  verified PDF.
\<close>

definition conversion_unverified :: "gen_env \<Rightarrow> gen_input \<Rightarrow> row \<Rightarrow> bool" where
  "conversion_unverified env inp row =
     (\<exists>doc pdf lg.
        renderDoc env (templateBuffer inp) (rowData inp row) (placeholders inp) = Returned doc
        \<and> docxBufferToPdf (conv env) doc = Returned (pdf, lg) \<and> \<not> isPdfBuffer pdf)"

lemma warningsOfRow_nonempty: "(idx, Warn w) \<in> set lines \<Longrightarrow> warningsOfRow idx lines \<noteq> []"
proof -
  assume "(idx, Warn w) \<in> set lines"
  then have "(idx, Warn w) \<in> set (filter (\<lambda>(k, e). k = idx \<and> isWarn e) lines)"
    by (simp add: isWarn_def)
  then have "0 < length (filter (\<lambda>(k, e). k = idx \<and> isWarn e) lines)"
    by (rule length_pos_if_in_set)
  then show ?thesis by (simp add: warningsOfRow_def)
qed

lemma processRows_unverified:
  assumes "\<forall>row \<in> set rws. conversion_unverified env inp row"
    and "names_in_step st"
  shows "\<exists>st'. processRows env inp now idx rws st = Some (None, st')
           \<and> names_in_step st'
           \<and> map (\<lambda>(n, d). Returned d) (zipDocx st')
               = map (\<lambda>(n, d). Returned d) (zipDocx st)
                 @ map (\<lambda>row. renderDoc env (templateBuffer inp) (rowData inp row) (placeholders inp)) rws
           \<and> zipPdf st' = zipPdf st
           \<and> emailQueue st' = emailQueue st
           \<and> set (console st) \<subseteq> set (console st')
           \<and> (\<forall>i<length rws. \<exists>w. (idx + i, Warn w) \<in> set (console st'))
           \<and> status (the_job st') = status (the_job st)"
  using assms
proof (induction rws arbitrary: st idx)
  case Nil
  then show ?case by simp
next
  case (Cons row rest)
  from Cons.prems(1) have "conversion_unverified env inp row" by simp
  then obtain doc pdf lg where
    r: "renderDoc env (templateBuffer inp) (rowData inp row) (placeholders inp) = Returned doc"
    and c: "docxBufferToPdf (conv env) doc = Returned (pdf, lg)" and v: "\<not> isPdfBuffer pdf"
    unfolding conversion_unverified_def by blast
  from processRow_defined [of st inp idx row env now] obtain fn where
    fn: "first_free_name (usedNames st) (rowFilename inp idx row) fn"
    and pr: "processRow env inp now idx row st = Some (finishRow env inp now idx row fn st)"
    by blast
  from finishRow_unverified [OF r c v, of now idx fn st] obtain st1 where
    fr: "finishRow env inp now idx row fn st = (None, st1)"
    and z: "zipDocx st1 = map_set (zipDocx st) fn doc"
    and u: "usedNames st1 = set_add (usedNames st) fn"
    and p1: "zipPdf st1 = zipPdf st" and q1: "emailQueue st1 = emailQueue st"
    and c1: "set (console st) \<subseteq> set (console st1)"
    and w1: "\<exists>w. (idx, Warn w) \<in> set (console st1)"
    and s1: "status (the_job st1) = status (the_job st)"
    by blast
  from fn have fresh: "fn \<notin> set (usedNames st)" by (simp add: first_free_name_def)
  with Cons.prems(2) have "fn \<notin> fst ` set (zipDocx st)"
    by (metis names_in_step_def set_map)
  then have z': "zipDocx st1 = zipDocx st @ [(fn, doc)]" unfolding z by (rule map_set_fresh)
  from fresh have u': "usedNames st1 = usedNames st @ [fn]" unfolding u by (rule set_add_fresh)
  from Cons.prems(2) fresh have inv1: "names_in_step st1"
    by (simp add: names_in_step_def z' u')
  from Cons.prems(1) have rest: "\<forall>row \<in> set rest. conversion_unverified env inp row" by simp
  from Cons.IH [OF rest inv1, of "idx + 1"] obtain st' where
    run: "processRows env inp now (idx + 1) rest st1 = Some (None, st')"
    and inv: "names_in_step st'"
    and docs: "map (\<lambda>(n, d). Returned d) (zipDocx st')
               = map (\<lambda>(n, d). Returned d) (zipDocx st1)
                 @ map (\<lambda>row. renderDoc env (templateBuffer inp) (rowData inp row) (placeholders inp)) rest"
    and p: "zipPdf st' = zipPdf st1" and q: "emailQueue st' = emailQueue st1"
    and cs: "set (console st1) \<subseteq> set (console st')"
    and ws: "\<forall>i<length rest. \<exists>w. (idx + 1 + i, Warn w) \<in> set (console st')"
    and ss: "status (the_job st') = status (the_job st1)"
    by blast
  have run': "processRows env inp now idx (row # rest) st = Some (None, st')"
    using pr fr run by simp
  have docs': "map (\<lambda>(n, d). Returned d) (zipDocx st')
               = map (\<lambda>(n, d). Returned d) (zipDocx st)
                 @ map (\<lambda>row. renderDoc env (templateBuffer inp) (rowData inp row) (placeholders inp))
                     (row # rest)"
    unfolding docs z' by (simp add: r)
  have ws': "\<forall>i<length (row # rest). \<exists>w. (idx + i, Warn w) \<in> set (console st')"
  proof (intro allI impI)
    fix i assume i: "i < length (row # rest)"
    show "\<exists>w. (idx + i, Warn w) \<in> set (console st')"
    proof (cases i)
      case 0
      with w1 cs show ?thesis by auto
    next
      case (Suc k)
      with i have "k < length rest" by simp
      with ws have "\<exists>w. (idx + 1 + k, Warn w) \<in> set (console st')" by blast
      then show ?thesis unfolding Suc by simp
    qed
  qed
  from c1 cs have "set (console st) \<subseteq> set (console st')" by blast
  with run' inv docs' p p1 q q1 ws' ss s1 show ?case by auto
qed

text \<open>
  Claim C4, as amended. Suppose that for every row the document is rendered and its
  conversion returns a result that fails verification, and that writing an archive does
  not throw. Then the job ends, with status \<open>done\<close>; its result holds the archive of the
  documents, no PDF archive, and the flag that no PDF was generated; the archive of
  documents holds the rendered document of every row, in order; no email is queued and
  no transport is called; and for every row at least one warning was written to the
  console while that row was processed.
\<close>

theorem unverified_conversions_leave_job_done:
  assumes "\<forall>row \<in> set (rows inp). conversion_unverified env inp row"
    and "\<forall>entries. \<exists>zb. generateZip env entries = Returned zb"
  shows "\<exists>out zb. runGenerateJob env now j inp = Some out
           \<and> status (final_job out) = Done
           \<and> generateZip env (zipDocx (final_state out)) = Returned zb
           \<and> result (final_job out) = Some (GenerateResult zb None False)
           \<and> map (\<lambda>(n, d). Returned d) (zipDocx (final_state out))
               = map (\<lambda>row. renderDoc env (templateBuffer inp) (rowData inp row) (placeholders inp))
                   (rows inp)
           \<and> emailQueue (final_state out) = []
           \<and> dispatched out = None
           \<and> (\<forall>i<length (rows inp). warningsOfRow i (console (final_state out)) \<noteq> [])"
proof -
  define j1 where "j1 = touchJob now (j\<lparr>job_total := length (rows inp), current := 0,
                               message := ''Gerando documentos.''\<rparr>)"
  have run: "runGenerateJob env now j inp =
      (case processRows env inp now 0 (rows inp) (initialState j1) of
           None \<Rightarrow> None
         | Some (Some e, st) \<Rightarrow> Some (failJob now e st)
         | Some (None, st) \<Rightarrow> Some (finishJob env inp now st))"
    by (simp add: runGenerateJob_def Let_def j1_def initialState_def)
  have init: "names_in_step (initialState j1)" by (simp add: names_in_step_def initialState_def)
  from processRows_unverified [OF assms(1) init, of now 0] obtain st where
    pr: "processRows env inp now 0 (rows inp) (initialState j1) = Some (None, st)"
    and docs: "map (\<lambda>(n, d). Returned d) (zipDocx st)
               = map (\<lambda>row. renderDoc env (templateBuffer inp) (rowData inp row) (placeholders inp))
                   (rows inp)"
    and p: "zipPdf st = []" and q: "emailQueue st = []"
    and ws: "\<forall>i<length (rows inp). \<exists>w. (i, Warn w) \<in> set (console st)"
    by (auto simp: initialState_def)
  from assms(2) obtain zb where zb: "generateZip env (zipDocx st) = Returned zb" by blast
  define out where "out = finishJob env inp now st"
  have o: "runGenerateJob env now j inp = Some out" unfolding run pr out_def by simp
  have fs: "zipDocx (final_state out) = zipDocx st" "emailQueue (final_state out) = []"
    "console (final_state out) = console st"
    unfolding out_def using zb p q by (simp_all add: finishJob_def Let_def)
  have fj: "status (final_job out) = Done"
    "result (final_job out) = Some (GenerateResult zb None False)" "dispatched out = None"
    unfolding out_def using zb p q by (simp_all add: finishJob_def Let_def touchJob_def)
  have "\<forall>i<length (rows inp). warningsOfRow i (console (final_state out)) \<noteq> []"
    unfolding fs using ws warningsOfRow_nonempty by blast
  with o fs fj zb docs show ?thesis by auto
qed


lemma example_conversion_unverified:
  "conversion_unverified (example_gen_env (example_converters [] ''<html>'')) inp row"
  by (simp add: conversion_unverified_def example_gen_env_def example_converters_def
      docxBufferToPdf_def convertWithMsOffice_def convertWithLibreOffice_def
      convertWithPuppeteer_def isPdfBuffer_def nonEmptyOrNull_def)

theorem unverified_conversions_leave_job_done_witness:
  "list_all (conversion_unverified (example_gen_env (example_converters [] ''<html>'')) example_input)
     (rows example_input)
   \<and> (\<forall>entries. \<exists>zb. generateZip (example_gen_env (example_converters [] ''<html>'')) entries
                        = Returned zb)
   \<and> status (final_job (the (runGenerateJob (example_gen_env (example_converters [] ''<html>'')) 7
        (createJob ''job-1'' Generate 1) example_input))) = Done
   \<and> result (final_job (the (runGenerateJob (example_gen_env (example_converters [] ''<html>'')) 7
        (createJob ''job-1'' Generate 1) example_input)))
       = Some (GenerateResult ''ZIP of doc_Ana.docx, doc_Ana_2.docx, doc_Ana_3.docx'' None False)
   \<and> zipDocx (final_state (the (runGenerateJob (example_gen_env (example_converters [] ''<html>'')) 7
        (createJob ''job-1'' Generate 1) example_input)))
       = [(''doc_Ana.docx'', ''DOCX for Ana''), (''doc_Ana_2.docx'', ''DOCX for Ana''),
          (''doc_Ana_3.docx'', ''DOCX for Ana'')]
   \<and> emailQueue (final_state (the (runGenerateJob (example_gen_env (example_converters [] ''<html>'')) 7
        (createJob ''job-1'' Generate 1) example_input))) = []
   \<and> dispatched (the (runGenerateJob (example_gen_env (example_converters [] ''<html>'')) 7
        (createJob ''job-1'' Generate 1) example_input)) = None
   \<and> warningsOfRow 1 (console (final_state (the (runGenerateJob
        (example_gen_env (example_converters [] ''<html>'')) 7
        (createJob ''job-1'' Generate 1) example_input))))
       = [Warn PUPPETEER_NOTICE, Warn ''PDF invalido gerado na linha 2.'']"
proof -
  let ?env = "example_gen_env (example_converters [] ''<html>'')"
  let ?run = "runGenerateJob ?env 7 (createJob ''job-1'' Generate 1) example_input"
  have h1: "\<forall>row \<in> set (rows example_input). conversion_unverified ?env example_input row"
    by (simp add: example_conversion_unverified)
  have h2: "\<forall>entries. \<exists>zb. generateZip ?env entries = Returned zb"
    by (simp add: example_gen_env_def)
  from unverified_conversions_leave_job_done [OF h1 h2, of 7 "createJob ''job-1'' Generate 1"]
  obtain out where o: "?run = Some out" and d: "status (final_job out) = Done"
    and q: "emailQueue (final_state out) = []" and n: "dispatched out = None"
    by blast
  from o have t: "the ?run = out" by simp
  have r: "result (final_job (the ?run))
       = Some (GenerateResult ''ZIP of doc_Ana.docx, doc_Ana_2.docx, doc_Ana_3.docx'' None False)"
    by code_simp
  have z: "zipDocx (final_state (the ?run))
       = [(''doc_Ana.docx'', ''DOCX for Ana''), (''doc_Ana_2.docx'', ''DOCX for Ana''),
          (''doc_Ana_3.docx'', ''DOCX for Ana'')]"
    by code_simp
  have w: "warningsOfRow 1 (console (final_state (the ?run)))
       = [Warn PUPPETEER_NOTICE, Warn ''PDF invalido gerado na linha 2.'']"
    by code_simp
  from h1 have "list_all (conversion_unverified ?env example_input) (rows example_input)"
    by (simp only: list_all_iff)
  with h2 d q n r z w show ?thesis unfolding t by blast
qed

theorem one_warning_per_row_counterexample:
  "status (final_job (the (runGenerateJob (example_gen_env (example_converters [] ''<html>'')) 7
      (createJob ''job-1'' Generate 1) example_input))) = Done
   \<and> warningsOfRow 0 (console (final_state (the (runGenerateJob
        (example_gen_env (example_converters [] ''<html>'')) 7
        (createJob ''job-1'' Generate 1) example_input))))
       = [Warn PUPPETEER_NOTICE, Warn ''PDF invalido gerado na linha 1.'',
          Warn ''PDF nao gerado; email nao enviado para ana@example.org'']
   \<and> message (final_job (the (runGenerateJob (example_gen_env (example_converters [] ''<html>'')) 7
        (createJob ''job-1'' Generate 1) example_input))) = ''Concluido.''
   \<and> status (final_job (the (runGenerateJob (example_gen_env failing_word_converters) 7
        (createJob ''job-1'' Generate 1) example_input))) = Error
   \<and> error (final_job (the (runGenerateJob (example_gen_env failing_word_converters) 7
        (createJob ''job-1'' Generate 1) example_input))) = ''ENOSPC: no space left on device''"
  by code_simp


definition terminal :: "job \<Rightarrow> bool" where
  "terminal j = (status j = Done \<or> status j = Error)"

lemma pause_request_other:
  "rid \<noteq> jid \<Longrightarrow> fst (pause_request jobs rid now) jid = jobs jid"
  by (simp add: pause_request_def Let_def split: option.splits)

lemma resume_request_other:
  "rid \<noteq> jid \<Longrightarrow> fst (resume_request jobs rid now) jid = jobs jid"
  by (simp add: resume_request_def Let_def split: option.splits)

lemma pause_request_terminal:
  "jobs jid = Some j \<Longrightarrow> terminal j \<Longrightarrow>
   pause_request jobs jid now = (jobs, StatusReply (status j))"
  by (simp add: pause_request_def terminal_def)

lemma resume_request_terminal:
  "jobs jid = Some j \<Longrightarrow> terminal j \<Longrightarrow>
   resume_request jobs jid now = (jobs, StatusReply (status j))"
  by (simp add: resume_request_def terminal_def)

lemma handle_request_keeps_terminal:
  assumes "jobs jid = Some j" and "terminal j"
  shows "fst (handle_request jobs r) jid = Some j"
proof (cases r)
  case (PauseRequest rid now)
  show ?thesis
  proof (cases "rid = jid")
    case True
    with assms PauseRequest show ?thesis by (simp add: pause_request_terminal)
  next
    case False
    with assms PauseRequest show ?thesis by (simp add: pause_request_other)
  qed
next
  case (ResumeRequest rid now)
  show ?thesis
  proof (cases "rid = jid")
    case True
    with assms ResumeRequest show ?thesis by (simp add: resume_request_terminal)
  next
    case False
    with assms ResumeRequest show ?thesis by (simp add: resume_request_other)
  qed
qed

lemma handle_requests_keeps_terminal:
  "jobs jid = Some j \<Longrightarrow> terminal j \<Longrightarrow> handle_requests jobs rs jid = Some j"
proof (induction rs arbitrary: jobs)
  case Nil
  then show ?case by simp
next
  case (Cons r rs)
  from Cons.prems have "fst (handle_request jobs r) jid = Some j"
    by (rule handle_request_keeps_terminal)
  with Cons.prems(2) show ?case by (simp add: Cons.IH)
qed

text \<open>
  Claim C5. For a job whose status is \<open>done\<close> or \<open>error\<close>, a pause request and a resume
  request both leave the whole registry (hence every field of the job, \<open>updatedAt\<close>
  included) as it was and reply with the job's current status; and after any sequence of
  pause and resume requests, addressed to this job or to any other id, the registry
  still holds the very same job under that id.
\<close>

theorem terminal_job_ignores_pause_resume:
  assumes "jobs jid = Some j" and "status j = Done \<or> status j = Error"
  shows "pause_request jobs jid now = (jobs, StatusReply (status j))
       \<and> resume_request jobs jid now = (jobs, StatusReply (status j))
       \<and> handle_requests jobs rs jid = Some j"
proof -
  from assms(2) have t: "terminal j" by (simp add: terminal_def)
  show ?thesis
    using assms(1) t
    by (simp add: pause_request_terminal resume_request_terminal
        handle_requests_keeps_terminal)
qed

theorem terminal_job_ignores_pause_resume_witness:
  "(let j = (createJob ''j1'' Generate 10)\<lparr>status := Done, paused := True, updatedAt := 20\<rparr>;
        jobs = [''j1'' \<mapsto> j, ''j2'' \<mapsto> createJob ''j2'' Send 11]
    in jobs ''j1'' = Some j \<and> (status j = Done \<or> status j = Error)
     \<and> pause_request jobs ''j1'' 30 = (jobs, StatusReply (status j))
     \<and> resume_request jobs ''j1'' 30 = (jobs, StatusReply (status j))
     \<and> handle_requests jobs
          [ResumeRequest ''j1'' 31, PauseRequest ''j2'' 32, PauseRequest ''j1'' 33,
           ResumeRequest ''j2'' 34] ''j1'' = Some j)"
  using terminal_job_ignores_pause_resume
    [of "[''j1'' \<mapsto> (createJob ''j1'' Generate 10)\<lparr>status := Done, paused := True, updatedAt := 20\<rparr>,
          ''j2'' \<mapsto> createJob ''j2'' Send 11]"
        "''j1''"
        "(createJob ''j1'' Generate 10)\<lparr>status := Done, paused := True, updatedAt := 20\<rparr>"
        30
        "[ResumeRequest ''j1'' 31, PauseRequest ''j2'' 32, PauseRequest ''j1'' 33,
          ResumeRequest ''j2'' 34]"]
  by (simp add: createJob_def Let_def)

end
